theory Spec2Isabelle
  imports Main
begin

section \<open>Data model (types.ts)\<close>

text \<open>
  \<^verbatim>\<open>resolution: '1K' | '2K' | '4K'\<close> and \<^verbatim>\<open>modelType: 'flash' | 'pro'\<close> are string-literal
  unions; they become datatypes. The other settings are plain strings.
\<close>

datatype Resolution = R1K | R2K | R4K

datatype ModelType = flash | pro

record EditorSettings =
  aspectRatio :: string
  resolution :: Resolution
  modelType :: ModelType
  style :: string
  cameraAngle :: string

section \<open>JavaScript strings\<close>

text \<open>
  A string is the list of its UTF-16 code units, and a \<open>char\<close> is a code unit below 256:
  a character of Latin-1 (the data URLs, the identifiers and the messages are ASCII).
  \<open>startsWith\<close> is an anchored literal match, \<open>includesStr\<close> is
  \<^verbatim>\<open>String.prototype.includes\<close>, \<open>join\<close> is \<^verbatim>\<open>Array.prototype.join\<close>.
\<close>

definition startsWith :: "string \<Rightarrow> string \<Rightarrow> bool" where
  "startsWith s p \<longleftrightarrow> take (length p) s = p"

fun includesStr :: "string \<Rightarrow> string \<Rightarrow> bool" where
  "includesStr [] sub = (sub = [])"
| "includesStr (c # cs) sub = (startsWith (c # cs) sub \<or> includesStr cs sub)"

fun join :: "string \<Rightarrow> string list \<Rightarrow> string" where
  "join sep [] = []"
| "join sep [x] = x"
| "join sep (x # y # ys) = x @ sep @ join sep (y # ys)"

text \<open>The character class \<^verbatim>\<open>[a-zA-Z]\<close>.\<close>

definition isLetter :: "char \<Rightarrow> bool" where
  "isLetter c \<longleftrightarrow>
     (let n = (of_char c :: nat) in (65 \<le> n \<and> n \<le> 90) \<or> (97 \<le> n \<and> n \<le> 122))"

section \<open>Image preprocessor (geminiService.ts, resizeBase64Image)\<close>

text \<open>
  The browser is the environment of the preprocessor: whether \<^verbatim>\<open>window\<close> exists, what
  loading a data URL into an \<^verbatim>\<open>Image\<close> yields (\<^verbatim>\<open>onload\<close> with the decoded width and
  height, or \<^verbatim>\<open>onerror\<close>), whether \<^verbatim>\<open>canvas.getContext('2d')\<close> returns a context, and the
  JPEG data URL that \<^verbatim>\<open>canvas.toDataURL('image/jpeg', 0.7)\<close> gives for a source drawn on a
  canvas of a given width and height.
\<close>

datatype LoadResult = Loaded nat nat | LoadError

record Browser =
  hasWindow :: bool
  loadImage :: "string \<Rightarrow> LoadResult"
  hasContext2d :: bool
  toDataURL :: "string \<Rightarrow> nat \<Rightarrow> nat \<Rightarrow> string"

text \<open>A promise settles by resolving with a value or rejecting with a thrown error.\<close>

datatype Thrown = Thrown (message: string) (asString: string)

datatype 'a Promise = Resolved 'a | Rejected Thrown

text \<open>
  \<^verbatim>\<open>Math.round(a / b)\<close> for non-negative integers \<open>a\<close> and positive \<open>b\<close>: the nearest
  integer, a tie going up.
\<close>

definition roundDiv :: "nat \<Rightarrow> nat \<Rightarrow> nat" where
  "roundDiv a b = (2 * a + b) div (2 * b)"

text \<open>Lines 33 to 46: the new canvas dimensions.\<close>

definition newDimensions :: "nat \<Rightarrow> nat \<Rightarrow> nat \<Rightarrow> nat \<times> nat" where
  "newDimensions width height maxWidth =
     (if width > height then
        (if width > maxWidth then (maxWidth, roundDiv (height * maxWidth) width)
         else (width, height))
      else
        (if height > maxWidth then (roundDiv (width * maxWidth) height, maxWidth)
         else (width, height)))"

definition resizeBase64Image :: "Browser \<Rightarrow> string \<Rightarrow> nat \<Rightarrow> string Promise" where
  "resizeBase64Image env base64Str maxWidth =
     (if \<not> hasWindow env then Resolved base64Str
      else if length base64Str < 50000 then Resolved base64Str
      else
        (case loadImage env base64Str of
           Loaded w h \<Rightarrow>
             if w \<le> maxWidth \<and> h \<le> maxWidth then Resolved base64Str
             else
               (let (width, height) = newDimensions w h maxWidth in
                if hasContext2d env then Resolved (toDataURL env base64Str width height)
                else Resolved base64Str)
         | LoadError \<Rightarrow> Resolved base64Str))"

text \<open>The default parameter \<^verbatim>\<open>maxWidth = 1024\<close>, as every call site uses it.\<close>

definition resizeDefault :: "Browser \<Rightarrow> string \<Rightarrow> string Promise" where
  "resizeDefault env base64Str = resizeBase64Image env base64Str 1024"

text \<open>\<^verbatim>\<open>Promise.all\<close>: the list of values, or the first rejection.\<close>

fun promiseAll :: "'a Promise list \<Rightarrow> 'a list Promise" where
  "promiseAll [] = Resolved []"
| "promiseAll (Rejected e # ps) = Rejected e"
| "promiseAll (Resolved x # ps) =
     (case promiseAll ps of Rejected e \<Rightarrow> Rejected e | Resolved xs \<Rightarrow> Resolved (x # xs))"

section \<open>Request builder (geminiService.ts, editImageWithGemini, lines 83 to 172)\<close>

datatype Part = InlineData (data: string) (mimeType: string) | TextPart string

record ImageConfig =
  aspectRatio_cfg :: string
  imageSize :: "Resolution option"

record Request =
  model :: string
  parts :: "Part list"
  responseModalities :: "string list"
  imageConfig :: ImageConfig

definition isPro :: "EditorSettings \<Rightarrow> bool" where
  "isPro settings \<longleftrightarrow>
     resolution settings = R2K \<or> resolution settings = R4K \<or> modelType settings = pro"

definition modelName :: "EditorSettings \<Rightarrow> string" where
  "modelName settings =
     (if isPro settings then ''gemini-3-pro-image-preview'' else ''gemini-2.5-flash-image'')"

definition config :: "EditorSettings \<Rightarrow> ImageConfig" where
  "config settings =
     \<lparr> aspectRatio_cfg = aspectRatio settings,
       imageSize = (if modelName settings = ''gemini-3-pro-image-preview''
                    then Some (resolution settings) else None) \<rparr>"

text \<open>
  \<^verbatim>\<open>base64Image.replace(/^data:image\/(png|jpeg|jpg|webp);base64,/, '')\<close>: the first
  alternative that matches at the start is removed; without a match the string is kept.
\<close>

definition knownHeaders :: "string list" where
  "knownHeaders =
     [''data:image/png;base64,'', ''data:image/jpeg;base64,'',
      ''data:image/jpg;base64,'', ''data:image/webp;base64,'']"

definition stripHeader :: "string \<Rightarrow> string" where
  "stripHeader s =
     (case List.find (startsWith s) knownHeaders of
        Some h \<Rightarrow> drop (length h) s
      | None \<Rightarrow> s)"

text \<open>
  \<^verbatim>\<open>base64Image.match(/^data:(image\/[a-zA-Z]+);base64,/)\<close>: the capture group, when
  the pattern matches. The letters are matched greedily and the next character has to be
  the semicolon, which is no letter, so the longest run of letters is the only candidate.
\<close>

definition mimeTypeMatch :: "string \<Rightarrow> string option" where
  "mimeTypeMatch s =
     (if startsWith s ''data:image/'' then
        (let rest = drop 11 s;
             letters = takeWhile isLetter rest;
             after = dropWhile isLetter rest
         in if letters \<noteq> [] \<and> startsWith after '';base64,''
            then Some (''image/'' @ letters) else None)
      else None)"

definition inlinePart :: "string \<Rightarrow> string \<Rightarrow> Part" where
  "inlinePart fallback base64Image =
     InlineData (stripHeader base64Image)
       (case mimeTypeMatch base64Image of Some m \<Rightarrow> m | None \<Rightarrow> fallback)"

text \<open>
  Lines 112 to 149. The images are resized in parallel; when all promises resolve the
  processed images are attached with the JPEG default, and the \<^verbatim>\<open>catch\<close> branch attaches
  the originals with the PNG default.
\<close>

definition imageParts :: "Browser \<Rightarrow> string list \<Rightarrow> Part list" where
  "imageParts env base64Images =
     (if base64Images \<noteq> [] then
        (case promiseAll (map (resizeDefault env) base64Images) of
           Resolved processedImages \<Rightarrow> map (inlinePart ''image/jpeg'') processedImages
         | Rejected e \<Rightarrow> map (inlinePart ''image/png'') base64Images)
      else [])"

text \<open>Lines 151 to 169. A JavaScript string is truthy when it is not empty.\<close>

definition modifiers :: "EditorSettings \<Rightarrow> string list" where
  "modifiers settings =
     (if style settings \<noteq> [] \<and> style settings \<noteq> ''None''
      then [''in '' @ style settings @ '' style''] else []) @
     (if cameraAngle settings \<noteq> [] \<and> cameraAngle settings \<noteq> ''None''
      then [''shot from '' @ cameraAngle settings] else [])"

definition finalPrompt :: "string \<Rightarrow> EditorSettings \<Rightarrow> string" where
  "finalPrompt prompt settings =
     (if length (modifiers settings) > 0
      then prompt @ '', '' @ join '', '' (modifiers settings)
      else prompt)"

definition buildRequest :: "Browser \<Rightarrow> string list \<Rightarrow> string \<Rightarrow> EditorSettings \<Rightarrow> Request" where
  "buildRequest env base64Images prompt settings =
     \<lparr> model = modelName settings,
       parts = imageParts env base64Images @ [TextPart (finalPrompt prompt settings)],
       responseModalities = [''TEXT'', ''IMAGE''],
       imageConfig = config settings \<rparr>"

section \<open>Model gateway (geminiService.ts, editImageWithGemini, lines 174 to 221)\<close>

text \<open>
  The response type belongs to the SDK and is not part of the repository. It is modelled
  as the properties the code reads, each of which may be \<^verbatim>\<open>undefined\<close> in JavaScript:
  \<^verbatim>\<open>response.candidates\<close>, a candidate's \<^verbatim>\<open>content\<close>, its \<^verbatim>\<open>parts\<close>, and of a part
  \<^verbatim>\<open>inlineData.data\<close> and \<^verbatim>\<open>text\<close> (here \<open>text_part\<close>). The field \<open>content\<close> of a
  candidate is \<open>None\<close> when the candidate has no content, \<open>Some None\<close> when the content
  has no parts, and \<open>Some (Some ps)\<close> when it has the parts \<open>ps\<close>.
\<close>

record ResponsePart =
  inlineData :: "string option"
  text_part :: "string option"

record Candidate =
  content :: "ResponsePart list option option"

record Response =
  candidates :: "Candidate list option"

text \<open>
  The loop of lines 187 to 194 over the parts: a part with non-empty inline data is an
  image, otherwise a part with non-empty text extends the text output.
\<close>

fun collectParts :: "ResponsePart list \<Rightarrow> string list \<times> string \<Rightarrow> string list \<times> string" where
  "collectParts [] acc = acc"
| "collectParts (part # rest) (images, textOutput) =
     (if inlineData part \<noteq> None \<and> inlineData part \<noteq> Some []
      then collectParts rest (images @ [''data:image/png;base64,'' @ the (inlineData part)], textOutput)
      else if text_part part \<noteq> None \<and> text_part part \<noteq> Some []
      then collectParts rest (images, textOutput @ the (text_part part))
      else collectParts rest (images, textOutput))"

text \<open>
  Lines 183 to 201, the body of the \<^verbatim>\<open>try\<close> after the response has arrived.
  \<^verbatim>\<open>response.candidates[0].content.parts\<close> reads the property \<^verbatim>\<open>content\<close> of
  \<^verbatim>\<open>undefined\<close> when the array is empty, and the property \<^verbatim>\<open>parts\<close> of \<^verbatim>\<open>undefined\<close>
  when the first candidate has no content; JavaScript then throws a \<^verbatim>\<open>TypeError\<close>.
  Its message is the engine's: \<open>typeErrorMessage\<close> gives it for the name of the property.
\<close>

definition decodeResponse :: "(string \<Rightarrow> string) \<Rightarrow> Response \<Rightarrow> Thrown + (string list \<times> string)" where
  "decodeResponse typeErrorMessage response =
     (case candidates response of
        None \<Rightarrow> Inl (Thrown ''No image generated.'' ''Error: No image generated.'')
      | Some [] \<Rightarrow>
          Inl (Thrown (typeErrorMessage ''content'') (''TypeError: '' @ typeErrorMessage ''content''))
      | Some (c # cs) \<Rightarrow>
          (case content c of
             None \<Rightarrow>
               Inl (Thrown (typeErrorMessage ''parts'') (''TypeError: '' @ typeErrorMessage ''parts''))
           | Some ps \<Rightarrow>
               (let (images, textOutput) =
                      (case ps of None \<Rightarrow> ([], []) | Some ps' \<Rightarrow> collectParts ps' ([], []))
                in if length images = 0 \<and> textOutput = []
                   then Inl (Thrown ''No image generated.'' ''Error: No image generated.'')
                   else Inr (images, textOutput))))"

text \<open>Lines 203 to 221, the \<^verbatim>\<open>catch\<close>: the message of the error that is thrown on.\<close>

definition classifyError :: "Thrown \<Rightarrow> string" where
  "classifyError error =
     (let errMsg = (if message error \<noteq> [] then message error else asString error) in
      if includesStr errMsg ''500''
      then ''Server Error (500). The image might be too complex or the server is busy. Try again.''
      else if includesStr errMsg ''Load failed'' \<or> includesStr errMsg ''Failed to fetch''
              \<or> includesStr errMsg ''NetworkError''
      then ''Network error. Check your internet connection and try again.''
      else if includesStr errMsg ''401'' \<or> includesStr errMsg ''403''
              \<or> includesStr errMsg ''API key''
      then ''API key invalid or expired. Please reconnect your API key.''
      else if includesStr errMsg ''429'' \<or> includesStr errMsg ''quota''
      then ''Rate limit exceeded. Wait a moment and try again.''
      else if errMsg \<noteq> [] then errMsg else ''Failed to generate image'')"

text \<open>
  The remote service is a parameter: for a request it either throws or answers with a
  response. The result of the gateway is the message of the error it throws (\<open>Inl\<close>) or
  the images and the text it returns (\<open>Inr\<close>).
\<close>

definition editImageWithGemini ::
  "Browser \<Rightarrow> (string \<Rightarrow> string) \<Rightarrow> (Request \<Rightarrow> Thrown + Response) \<Rightarrow>
     string list \<Rightarrow> string \<Rightarrow> EditorSettings \<Rightarrow> string + (string list \<times> string)" where
  "editImageWithGemini env typeErrorMessage generateContent base64Images prompt settings =
     (case generateContent (buildRequest env base64Images prompt settings) of
        Inl error \<Rightarrow> Inl (classifyError error)
      | Inr response \<Rightarrow>
          (case decodeResponse typeErrorMessage response of
             Inl error \<Rightarrow> Inl (classifyError error)
           | Inr result \<Rightarrow> Inr result))"

section \<open>Application state (App.tsx)\<close>

text \<open>
  Objects and arrays are references in JavaScript, and the job queue is about which of
  them are shared. The store maps addresses to the settings objects and to the image
  arrays; \<open>nextAddr\<close> is the first address not yet allocated. A queue item holds the
  addresses of its settings object and of its image array.
\<close>

type_synonym addr = nat

datatype Status = pending | processing | failed

record QueueItem =
  item_id :: string
  prompt :: string
  settings :: addr
  sourceImages :: addr
  status :: Status
  timestamp :: nat
  error :: "string option"

record GeneratedImage =
  image_id :: string
  url :: string
  image_prompt :: string
  image_timestamp :: nat

text \<open>
  A gateway call in flight: the item that the callback has captured as \<^verbatim>\<open>nextItem\<close>
  (here \<open>call_item\<close>), and the image list and the settings that were read through its
  references when the call was made.
\<close>

record GatewayCall =
  call_item :: QueueItem
  call_images :: "string list"
  call_settings :: EditorSettings

text \<open>
  Two of the calls that the admission callback makes for an item are recorded, in the
  order in which they are made: the update of the queue that marks the item, and the
  gateway call.
\<close>

datatype Effect = MarkedProcessing string | GatewayCalled string

text \<open>
  The React state variables of the component that the queue reads or writes. The
  variables \<^verbatim>\<open>prompt\<close>, \<^verbatim>\<open>settings\<close> and \<^verbatim>\<open>sourceImages\<close> carry the suffix \<open>_state\<close>.
  The timers, the viewer and the brush are presentation only and left out. \<open>inFlight\<close>
  holds the gateway calls that have not settled, and \<open>trace\<close> the calls of the admission
  callback so far.
\<close>

record App =
  objects :: "addr \<Rightarrow> EditorSettings"
  arrays :: "addr \<Rightarrow> string list"
  nextAddr :: addr
  prompt_state :: string
  settings_state :: addr
  sourceImages_state :: addr
  isImageMode :: bool
  queue :: "QueueItem list"
  generatedImages :: "GeneratedImage list"
  globalError :: "string option"
  textResponse :: "string option"
  inFlight :: "GatewayCall list"
  trace :: "Effect list"

subsection \<open>Enqueue (addToQueue, lines 1374 to 1398)\<close>

text \<open>\<^verbatim>\<open>Partial<EditorSettings>\<close>: every field may be absent.\<close>

record SettingsOverride =
  aspectRatio_o :: "string option"
  resolution_o :: "Resolution option"
  modelType_o :: "ModelType option"
  style_o :: "string option"
  cameraAngle_o :: "string option"

text \<open>\<^verbatim>\<open>{ ...settings, ...overrideSettings }\<close>\<close>

definition spreadSettings :: "EditorSettings \<Rightarrow> SettingsOverride option \<Rightarrow> EditorSettings" where
  "spreadSettings base overrideSettings =
     (case overrideSettings of
        None \<Rightarrow> base
      | Some ov \<Rightarrow>
          \<lparr> aspectRatio = (case aspectRatio_o ov of Some v \<Rightarrow> v | None \<Rightarrow> aspectRatio base),
            resolution = (case resolution_o ov of Some v \<Rightarrow> v | None \<Rightarrow> resolution base),
            modelType = (case modelType_o ov of Some v \<Rightarrow> v | None \<Rightarrow> modelType base),
            style = (case style_o ov of Some v \<Rightarrow> v | None \<Rightarrow> style base),
            cameraAngle = (case cameraAngle_o ov of Some v \<Rightarrow> v | None \<Rightarrow> cameraAngle base) \<rparr>)"

text \<open>
  \<^verbatim>\<open>String.prototype.trim\<close> removes the white space and the line terminators of
  ECMAScript at both ends. Below 256 these are the code units U+0009 to U+000D, U+0020
  and the no-break space U+00A0; the others (U+1680, U+2000 to U+200A, U+2028, U+2029,
  U+202F, U+205F, U+3000 and U+FEFF) are not code units of the strings of this model.
\<close>

definition isWhiteSpace :: "char \<Rightarrow> bool" where
  "isWhiteSpace c \<longleftrightarrow>
     (let n = (of_char c :: nat) in (9 \<le> n \<and> n \<le> 13) \<or> n = 32 \<or> n = 160)"

definition trim :: "string \<Rightarrow> string" where
  "trim s = rev (dropWhile isWhiteSpace (rev (dropWhile isWhiteSpace s)))"

text \<open>
  \<^verbatim>\<open>addToQueue\<close> is a \<^verbatim>\<open>useCallback\<close> closure: it reads the \<^verbatim>\<open>settings\<close>,
  \<^verbatim>\<open>isImageMode\<close> and \<^verbatim>\<open>sourceImages\<close> of the render that created it, which are not
  the live ones when the state has changed since (\<^verbatim>\<open>handleViewerRemoveBg\<close> and the
  timers of \<^verbatim>\<open>handleGenerate\<close> call it later). \<open>currentClosure\<close> is what a render of
  the state captures.
\<close>

record Closure =
  captured_settings :: addr
  captured_isImageMode :: bool
  captured_sourceImages :: addr

definition currentClosure :: "App \<Rightarrow> Closure" where
  "currentClosure s =
     \<lparr> captured_settings = settings_state s, captured_isImageMode = isImageMode s,
       captured_sourceImages = sourceImages_state s \<rparr>"

text \<open>
  \<open>newId\<close> is the value of \<^verbatim>\<open>crypto.randomUUID()\<close> and \<open>now\<close> that of \<^verbatim>\<open>Date.now()\<close>.
  The object spread and the array spread \<^verbatim>\<open>[...sourceImages]\<close> allocate a new object
  and a new array, filled from the object and the array that the closure has captured.
\<close>

definition addToQueue ::
  "string \<Rightarrow> nat \<Rightarrow> Closure \<Rightarrow> string \<Rightarrow> SettingsOverride option \<Rightarrow> App \<Rightarrow> App" where
  "addToQueue newId now closure currentPrompt overrideSettings s =
     (if trim currentPrompt = [] then s
      else
        (let effectiveSettings = nextAddr s;
             requestSourceImages = Suc (nextAddr s);
             newItem = \<lparr> item_id = newId, prompt = currentPrompt,
                         settings = effectiveSettings, sourceImages = requestSourceImages,
                         status = pending, timestamp = now, error = None \<rparr>
         in s \<lparr> objects := (objects s)
                    (effectiveSettings :=
                       spreadSettings (objects s (captured_settings closure)) overrideSettings),
                 arrays := (arrays s)
                    (requestSourceImages :=
                       (if captured_isImageMode closure
                        then arrays s (captured_sourceImages closure) else [])),
                 nextAddr := Suc (Suc (nextAddr s)),
                 queue := queue s @ [newItem],
                 prompt_state := (if overrideSettings = None then [] else prompt_state s) \<rparr>))"

text \<open>The call from the latest render.\<close>

definition enqueueNow :: "string \<Rightarrow> nat \<Rightarrow> string \<Rightarrow> SettingsOverride option \<Rightarrow> App \<Rightarrow> App" where
  "enqueueNow newId now currentPrompt overrideSettings s =
     addToQueue newId now (currentClosure s) currentPrompt overrideSettings s"

subsection \<open>Admission (processNextItems, lines 1198 to 1258)\<close>

definition maxParallel :: nat where
  "maxParallel = 2"

definition processingCount :: "QueueItem list \<Rightarrow> nat" where
  "processingCount q = length (filter (\<lambda>item. status item = processing) q)"

text \<open>
  \<^verbatim>\<open>queue.filter(item => item.status === 'pending').slice(0, maxParallel - processingCount)\<close>;
  the caller has returned already when the count is not below \<open>maxParallel\<close>, so the
  subtraction is never negative where it is used.
\<close>

definition pendingItems :: "QueueItem list \<Rightarrow> QueueItem list" where
  "pendingItems q =
     take (maxParallel - processingCount q) (filter (\<lambda>item. status item = pending) q)"

text \<open>\<^verbatim>\<open>prev.map(i => i.id === nextItem.id ? { ...i, status: 'processing' } : i)\<close>\<close>

definition markProcessing :: "QueueItem \<Rightarrow> QueueItem list \<Rightarrow> QueueItem list" where
  "markProcessing nextItem prev =
     map (\<lambda>i. if item_id i = item_id nextItem then i \<lparr> status := processing \<rparr> else i) prev"

text \<open>
  One run of the \<^verbatim>\<open>forEach\<close> callback up to its \<^verbatim>\<open>await\<close>: the global error is cleared,
  the item is marked, and then the gateway is called with the item's image array, prompt
  and settings object.
\<close>

definition markItem :: "QueueItem \<Rightarrow> App \<Rightarrow> App" where
  "markItem nextItem s =
     s \<lparr> globalError := None, queue := markProcessing nextItem (queue s),
         trace := trace s @ [MarkedProcessing (item_id nextItem)] \<rparr>"

definition callGateway :: "QueueItem \<Rightarrow> App \<Rightarrow> App" where
  "callGateway nextItem s =
     s \<lparr> inFlight := inFlight s @
            [\<lparr> call_item = nextItem,
               call_images = arrays s (sourceImages nextItem),
               call_settings = objects s (settings nextItem) \<rparr>],
         trace := trace s @ [GatewayCalled (item_id nextItem)] \<rparr>"

fun admit :: "QueueItem list \<Rightarrow> App \<Rightarrow> App" where
  "admit [] s = s"
| "admit (nextItem # rest) s = admit rest (callGateway nextItem (markItem nextItem s))"

definition processNextItems :: "App \<Rightarrow> App" where
  "processNextItems s =
     (if processingCount (queue s) \<ge> maxParallel then s
      else if length (pendingItems (queue s)) = 0 then s
      else admit (pendingItems (queue s)) s)"

subsection \<open>Completion of a gateway call (lines 1216 to 1253)\<close>

text \<open>
  The success path. \<open>uuid k\<close> and \<open>clock k\<close> are the values of \<^verbatim>\<open>crypto.randomUUID()\<close>
  and \<^verbatim>\<open>Date.now()\<close> for the image at index \<open>k\<close>.
\<close>

definition newImages ::
  "(nat \<Rightarrow> string) \<Rightarrow> (nat \<Rightarrow> nat) \<Rightarrow> QueueItem \<Rightarrow> string list \<Rightarrow> GeneratedImage list" where
  "newImages uuid clock nextItem images =
     map (\<lambda>(k, u). \<lparr> image_id = uuid k, url = u, image_prompt = prompt nextItem,
                      image_timestamp = clock k \<rparr>)
       (enumerate 0 images)"

definition onSuccess ::
  "(nat \<Rightarrow> string) \<Rightarrow> (nat \<Rightarrow> nat) \<Rightarrow> QueueItem \<Rightarrow> string list \<times> string \<Rightarrow> App \<Rightarrow> App" where
  "onSuccess uuid clock nextItem result s =
     (let (images, txt) = result in
      s \<lparr> generatedImages :=
            (if length images > 0
             then newImages uuid clock nextItem images @ generatedImages s
             else generatedImages s),
          textResponse := (if txt \<noteq> [] then Some txt else textResponse s),
          queue := filter (\<lambda>i. item_id i \<noteq> item_id nextItem) (queue s) \<rparr>)"

text \<open>The \<^verbatim>\<open>catch\<close> path; \<open>errMessage\<close> is \<^verbatim>\<open>err.message\<close>.\<close>

definition onFailure :: "QueueItem \<Rightarrow> string \<Rightarrow> App \<Rightarrow> App" where
  "onFailure nextItem errMessage s =
     (let errorMessage = (if errMessage \<noteq> [] then errMessage else ''Failed to generate image.'')
      in s \<lparr> globalError := Some errorMessage,
             queue := map (\<lambda>i. if item_id i = item_id nextItem
                                then i \<lparr> status := failed, error := Some errorMessage \<rparr>
                                else i) (queue s) \<rparr>)"

text \<open>
  A call in flight settles with what the gateway does for the arguments it was given:
  the browser, the engine's message and the remote service are the environment.
\<close>

definition settle ::
  "Browser \<Rightarrow> (string \<Rightarrow> string) \<Rightarrow> (Request \<Rightarrow> Thrown + Response) \<Rightarrow>
     (nat \<Rightarrow> string) \<Rightarrow> (nat \<Rightarrow> nat) \<Rightarrow> GatewayCall \<Rightarrow> App \<Rightarrow> App" where
  "settle env typeErrorMessage generateContent uuid clock call s =
     (let s' = s \<lparr> inFlight := remove1 call (inFlight s) \<rparr> in
      case editImageWithGemini env typeErrorMessage generateContent
             (call_images call) (prompt (call_item call)) (call_settings call) of
        Inr result \<Rightarrow> onSuccess uuid clock (call_item call) result s'
      | Inl errMessage \<Rightarrow> onFailure (call_item call) errMessage s')"

subsection \<open>Cancel and retry (lines 1538 to 1544)\<close>

definition cancelQueueItem :: "string \<Rightarrow> App \<Rightarrow> App" where
  "cancelQueueItem i s = s \<lparr> queue := filter (\<lambda>item. item_id item \<noteq> i) (queue s) \<rparr>"

definition retryQueueItem :: "QueueItem \<Rightarrow> App \<Rightarrow> App" where
  "retryQueueItem item s =
     s \<lparr> queue := map (\<lambda>i. if item_id i = item_id item
                              then i \<lparr> status := pending, error := None \<rparr> else i) (queue s) \<rparr>"

subsection \<open>The live settings and source images\<close>

text \<open>
  The component replaces its state: \<^verbatim>\<open>setSourceImages\<close> and \<^verbatim>\<open>setSettings\<close> are always
  given a new array or a new object. \<open>writeSourceImages\<close> and \<open>writeSettings\<close> are writes
  in place to the live array and the live object, which the copies made at enqueue time
  are there to withstand.
\<close>

definition setSourceImages :: "string list \<Rightarrow> App \<Rightarrow> App" where
  "setSourceImages imgs s =
     s \<lparr> arrays := (arrays s) (nextAddr s := imgs),
         sourceImages_state := nextAddr s,
         nextAddr := Suc (nextAddr s) \<rparr>"

definition setSettings :: "EditorSettings \<Rightarrow> App \<Rightarrow> App" where
  "setSettings st s =
     s \<lparr> objects := (objects s) (nextAddr s := st),
         settings_state := nextAddr s,
         nextAddr := Suc (nextAddr s) \<rparr>"

definition writeSourceImages :: "string list \<Rightarrow> App \<Rightarrow> App" where
  "writeSourceImages imgs s = s \<lparr> arrays := (arrays s) (sourceImages_state s := imgs) \<rparr>"

definition writeSettings :: "EditorSettings \<Rightarrow> App \<Rightarrow> App" where
  "writeSettings st s = s \<lparr> objects := (objects s) (settings_state s := st) \<rparr>"

definition setIsImageMode :: "bool \<Rightarrow> App \<Rightarrow> App" where
  "setIsImageMode b s = s \<lparr> isImageMode := b \<rparr>"

definition setPrompt :: "string \<Rightarrow> App \<Rightarrow> App" where
  "setPrompt p s = s \<lparr> prompt_state := p \<rparr>"

subsection \<open>Background removal (lines 1407 to 1435)\<close>

definition bgPrompt :: string where
  "bgPrompt = ''Create a professional cutout of the main subject from this image with transparent background. Remove all background elements completely while preserving the subject with perfect edge quality. Output as PNG format with transparency.''"

text \<open>
  \<^verbatim>\<open>handleRemoveBackground\<close> is created anew by every render, so it reads the state of
  the latest render and calls its \<^verbatim>\<open>addToQueue\<close>, with
  \<^verbatim>\<open>{ style: 'None', modelType: 'pro', resolution: '4K' }\<close>.
\<close>

definition handleRemoveBackground :: "string \<Rightarrow> nat \<Rightarrow> App \<Rightarrow> App" where
  "handleRemoveBackground newId now s =
     (if \<not> isImageMode s \<or> length (arrays s (sourceImages_state s)) = 0
      then setIsImageMode True
             (s \<lparr> globalError := Some ''Upload an image first to remove background.'' \<rparr>)
      else addToQueue newId now (currentClosure s) bgPrompt
             (Some \<lparr> aspectRatio_o = None, resolution_o = Some R4K, modelType_o = Some pro,
                      style_o = Some ''None'', cameraAngle_o = None \<rparr>) s)"

text \<open>
  \<^verbatim>\<open>handleViewerRemoveBg\<close>, for an image that loads, with \<open>detectedRatio\<close> the value of
  \<^verbatim>\<open>detectAspectRatio\<close> for it: the handler replaces the source images and switches image
  mode on; the load handler updates the aspect ratio of the settings; the timer calls
  \<^verbatim>\<open>addToQueue\<close>. The handler, the load handler and the timer callback are closures of
  the render in which the handler was created, and so is the \<^verbatim>\<open>addToQueue\<close> that they
  call: it has captured the state before the three updates.
\<close>

definition handleViewerRemoveBg :: "string \<Rightarrow> nat \<Rightarrow> string \<Rightarrow> string \<Rightarrow> App \<Rightarrow> App" where
  "handleViewerRemoveBg newId now imageUrl detectedRatio s =
     (let closure = currentClosure s;
          s1 = setIsImageMode True (setSourceImages [imageUrl] s);
          s2 = setSettings ((objects s1 (settings_state s1)) \<lparr> aspectRatio := detectedRatio \<rparr>) s1
      in addToQueue newId now closure bgPrompt
           (Some \<lparr> aspectRatio_o = Some detectedRatio, resolution_o = Some R4K,
                    modelType_o = Some pro, style_o = Some ''None'', cameraAngle_o = None \<rparr>) s2)"

subsection \<open>Reachable states\<close>

text \<open>
  The component starts with an empty queue and no call in flight; its live settings and
  source images are allocated.
\<close>

definition initial :: "App \<Rightarrow> bool" where
  "initial s \<longleftrightarrow>
     queue s = [] \<and> inFlight s = [] \<and>
     settings_state s < nextAddr s \<and> sourceImages_state s < nextAddr s"

text \<open>
  The event loop has a single thread: every state update, every run of the admission
  effect and every continuation of a settled gateway call is one step, run to completion
  on the current state. The admission effect may run at any time. An identifier from
  \<^verbatim>\<open>crypto.randomUUID()\<close> is new: no item of the queue and no call in flight has it.
  Enqueueing is a step for the closure of any render, earlier ones included: for any
  settings object and any image array that are allocated, and any value of the image
  mode. Cancel and retry are steps for any identifier and any item, whatever its status.
\<close>

inductive step :: "App \<Rightarrow> App \<Rightarrow> bool" where
  enqueue:
    "newId \<notin> item_id ` set (queue s) \<Longrightarrow> newId \<notin> (item_id \<circ> call_item) ` set (inFlight s) \<Longrightarrow>
     captured_settings closure < nextAddr s \<Longrightarrow> captured_sourceImages closure < nextAddr s \<Longrightarrow>
       step s (addToQueue newId now closure currentPrompt overrideSettings s)"
| admission: "step s (processNextItems s)"
| settled:
    "call \<in> set (inFlight s) \<Longrightarrow>
       step s (settle env typeErrorMessage generateContent uuid clock call s)"
| cancel: "step s (cancelQueueItem i s)"
| retry: "step s (retryQueueItem item s)"
| replaceImages: "step s (setSourceImages imgs s)"
| replaceSettings: "step s (setSettings st s)"
| writeImages: "step s (writeSourceImages imgs s)"
| writeSettingsInPlace: "step s (writeSettings st s)"
| imageMode: "step s (setIsImageMode b s)"
| promptEdit: "step s (setPrompt p s)"

inductive reachable :: "App \<Rightarrow> bool" where
  start: "initial s \<Longrightarrow> reachable s"
| advance: "reachable s \<Longrightarrow> step s s' \<Longrightarrow> reachable s'"

subsection \<open>A concrete run\<close>

text \<open>
  The defaults of the settings (lines 1047 to 1053) and a component that has just been
  mounted, with image mode off and no source image.
\<close>

definition defaultSettings :: EditorSettings where
  "defaultSettings =
     \<lparr> aspectRatio = ''16:9'', resolution = R4K, modelType = pro,
       style = ''None'', cameraAngle = ''None'' \<rparr>"

definition mounted :: App where
  "mounted =
     \<lparr> objects = (\<lambda>a. defaultSettings), arrays = (\<lambda>a. []), nextAddr = 2,
       prompt_state = [], settings_state = 0, sourceImages_state = 1,
       isImageMode = False, queue = [], generatedImages = [],
       globalError = None, textResponse = None, inFlight = [], trace = [] \<rparr>"

text \<open>Three prompts are enqueued, then the admission effect runs.\<close>

definition threeEnqueued :: App where
  "threeEnqueued =
     enqueueNow ''id-3'' 300 ''a green kite'' None
       (enqueueNow ''id-2'' 200 ''a blue boat'' None
         (enqueueNow ''id-1'' 100 ''a red bicycle'' None mounted))"

text \<open>
  One prompt is enqueued and admitted, then two more are enqueued: one item is processing
  and two are pending.
\<close>

definition oneRunning :: App where
  "oneRunning =
     enqueueNow ''id-3'' 300 ''a green kite'' None
       (enqueueNow ''id-2'' 200 ''a blue boat'' None
         (processNextItems (enqueueNow ''id-1'' 100 ''a red bicycle'' None mounted)))"

text \<open>The two calls that the admission makes for the first two prompts.\<close>

definition firstCall :: GatewayCall where
  "firstCall =
     \<lparr> call_item = \<lparr> item_id = ''id-1'', prompt = ''a red bicycle'', settings = 2,
                      sourceImages = 3, status = pending, timestamp = 100, error = None \<rparr>,
       call_images = [], call_settings = defaultSettings \<rparr>"

definition secondCall :: GatewayCall where
  "secondCall =
     \<lparr> call_item = \<lparr> item_id = ''id-2'', prompt = ''a blue boat'', settings = 4,
                      sourceImages = 5, status = pending, timestamp = 200, error = None \<rparr>,
       call_images = [], call_settings = defaultSettings \<rparr>"

text \<open>
  A browser in which every image decodes to 2048 by 1024 pixels, the same browser without
  a 2D canvas context, and a data URL of 50000 characters.
\<close>

definition exampleBrowser :: Browser where
  "exampleBrowser =
     \<lparr> hasWindow = True, loadImage = (\<lambda>s. Loaded 2048 1024), hasContext2d = True,
       toDataURL = (\<lambda>s w h. ''data:image/jpeg;base64,/9j/'') \<rparr>"

definition noContextBrowser :: Browser where
  "noContextBrowser = exampleBrowser \<lparr> hasContext2d := False \<rparr>"

definition bigImage :: string where
  "bigImage = replicate 50000 (CHR ''A'')"

text \<open>The message of V8 for reading a property of \<^verbatim>\<open>undefined\<close>.\<close>

definition v8Message :: "string \<Rightarrow> string" where
  "v8Message property =
     ''Cannot read properties of undefined (reading '' @ [CHR 0x27] @ property @ [CHR 0x27] @ '')''"

text \<open>
  A remote service that cannot be reached, one that answers with an image and a text, and
  a response whose only candidate carries no content.
\<close>

definition unreachableService :: "Request \<Rightarrow> Thrown + Response" where
  "unreachableService request = Inl (Thrown ''Failed to fetch'' ''TypeError: Failed to fetch'')"

definition answeringService :: "Request \<Rightarrow> Thrown + Response" where
  "answeringService request =
     Inr \<lparr> candidates = Some [\<lparr> content = Some (Some
       [\<lparr> inlineData = Some ''QUJD'', text_part = None \<rparr>,
        \<lparr> inlineData = None, text_part = Some ''Here it is.'' \<rparr>]) \<rparr>] \<rparr>"

definition candidateWithoutContent :: Response where
  "candidateWithoutContent = \<lparr> candidates = Some [\<lparr> content = None \<rparr>] \<rparr>"

text \<open>Settings for the request builder.\<close>

definition cinematicLowAngle :: EditorSettings where
  "cinematicLowAngle =
     \<lparr> aspectRatio = ''1:1'', resolution = R4K, modelType = flash,
       style = ''Cinematic'', cameraAngle = ''Low Angle'' \<rparr>"

definition plain1K :: EditorSettings where
  "plain1K =
     \<lparr> aspectRatio = ''1:1'', resolution = R1K, modelType = flash,
       style = ''None'', cameraAngle = ''None'' \<rparr>"

definition emptyStyle :: EditorSettings where
  "emptyStyle =
     \<lparr> aspectRatio = ''1:1'', resolution = R4K, modelType = pro,
       style = [], cameraAngle = ''None'' \<rparr>"

text \<open>
  The settings are changed, image mode is switched on and two source images are set; a
  prompt is enqueued; a third source image is added and the admission effect runs.
\<close>

definition twoImages :: App where
  "twoImages =
     setSourceImages [''A'', ''B''] (setIsImageMode True (setSettings cinematicLowAngle mounted))"

definition enqueuedAB :: App where
  "enqueuedAB = enqueueNow ''id-1'' 100 ''merge the two'' None twoImages"

definition dispatchedAB :: App where
  "dispatchedAB = processNextItems (setSourceImages [''A'', ''B'', ''C''] enqueuedAB)"

text \<open>A source image is uploaded, which switches image mode on, and image mode is switched off.\<close>

definition oneImageModeOff :: App where
  "oneImageModeOff = setIsImageMode False (setIsImageMode True (setSourceImages [''A''] mounted))"

text \<open>
  With image mode off and no source image, a prompt is enqueued and admitted, and its
  call returns an image. Then the background of this image is removed from the viewer.
\<close>

definition firstGenerated :: App where
  "firstGenerated =
     settle exampleBrowser v8Message answeringService (\<lambda>k. ''image'') (\<lambda>k. 400) firstCall
       (processNextItems (enqueueNow ''id-1'' 100 ''a red bicycle'' None mounted))"

definition viewerRemoveBg :: App where
  "viewerRemoveBg =
     handleViewerRemoveBg ''id-2'' 500 ''data:image/png;base64,QUJD'' ''1:1'' firstGenerated"

text \<open>
  What the queue and the calls in flight hold, the two references of an item, and the
  fields that make two records the same job.
\<close>

definition owned :: "App \<Rightarrow> QueueItem set" where
  "owned s = set (queue s) \<union> call_item ` set (inFlight s)"

definition refsOf :: "QueueItem \<Rightarrow> addr \<times> addr" where
  "refsOf j = (settings j, sourceImages j)"

definition sameJob :: "QueueItem \<Rightarrow> QueueItem \<Rightarrow> bool" where
  "sameJob j j' \<longleftrightarrow>
     item_id j' = item_id j \<and> prompt j' = prompt j \<and> timestamp j' = timestamp j \<and>
     settings j' = settings j \<and> sourceImages j' = sourceImages j"

text \<open>
  The invariant of the store: the live settings and source images are allocated; what
  the queue and the calls in flight refer to is allocated and is not live; and a call in
  flight was given what its item refers to.
\<close>

definition heapInv :: "App \<Rightarrow> bool" where
  "heapInv s \<longleftrightarrow>
     settings_state s < nextAddr s \<and> sourceImages_state s < nextAddr s \<and>
     (\<forall>r\<in>refsOf ` owned s.
        fst r < nextAddr s \<and> snd r < nextAddr s \<and>
        fst r \<noteq> settings_state s \<and> snd r \<noteq> sourceImages_state s) \<and>
     (\<forall>c\<in>set (inFlight s).
        call_settings c = objects s (settings (call_item c)) \<and>
        call_images c = arrays s (sourceImages (call_item c)))"

text \<open>
  Three source images: a PNG data URL, an SVG data URL as \<^verbatim>\<open>FileReader.readAsDataURL\<close>
  gives it for an uploaded SVG file, and a string without a header.
\<close>

definition pngImage :: string where
  "pngImage = ''data:image/png;base64,AAAA''"

definition svgImage :: string where
  "svgImage = ''data:image/svg+xml;base64,PHN2Zy8+''"

definition bareImage :: string where
  "bareImage = ''CCCC''"


section \<open>Model tier and prompt text\<close>

text \<open>
  C5. The model and the \<open>imageSize\<close> field of the request are given by the resolution and
  the model type alone, for every settings value: resolution 1K with model type \<open>flash\<close>
  selects \<open>gemini-2.5-flash-image\<close> and the request has no \<open>imageSize\<close>; every other
  combination (2K, 4K, or model type \<open>pro\<close>) selects \<open>gemini-3-pro-image-preview\<close> and
  \<open>imageSize\<close> is the resolution. Two settings that agree on resolution and model type
  get the same model and the same \<open>imageSize\<close>, whatever the browser, images and prompt.
\<close>

theorem tier_selection:
  "model (buildRequest env imgs p st) =
     (if resolution st = R1K \<and> modelType st = flash
      then ''gemini-2.5-flash-image'' else ''gemini-3-pro-image-preview'') \<and>
   imageSize (imageConfig (buildRequest env imgs p st)) =
     (if resolution st = R1K \<and> modelType st = flash then None else Some (resolution st)) \<and>
   (\<forall>env' imgs' p' st'.
      resolution st' = resolution st \<and> modelType st' = modelType st \<longrightarrow>
      model (buildRequest env' imgs' p' st') = model (buildRequest env imgs p st) \<and>
      imageSize (imageConfig (buildRequest env' imgs' p' st')) =
        imageSize (imageConfig (buildRequest env imgs p st)))"
  by (cases "resolution st"; cases "modelType st";
      simp add: buildRequest_def modelName_def config_def isPro_def)

text \<open>The two scenarios of the specification: 1K without override, and 4K.\<close>

theorem tier_selection_witness:
  "model (buildRequest exampleBrowser [] ''a red bicycle'' plain1K) = ''gemini-2.5-flash-image'' \<and>
   imageSize (imageConfig (buildRequest exampleBrowser [] ''a red bicycle'' plain1K)) = None \<and>
   model (buildRequest exampleBrowser [] ''portrait'' cinematicLowAngle) = ''gemini-3-pro-image-preview'' \<and>
   imageSize (imageConfig (buildRequest exampleBrowser [] ''portrait'' cinematicLowAngle)) = Some R4K"
  using tier_selection [of exampleBrowser "[]" "''a red bicycle''" plain1K]
    tier_selection [of exampleBrowser "[]" "''portrait''" cinematicLowAngle]
  by (simp add: plain1K_def cinematicLowAngle_def)

lemma imageParts_inline: "a \<in> set (imageParts env imgs) \<Longrightarrow> \<exists>d m. a = InlineData d m"
  by (auto simp add: imageParts_def inlinePart_def split: if_splits Promise.splits)

lemma finalPrompt_cases:
  "finalPrompt p st =
     (if style st = [] \<or> style st = ''None'' then
        (if cameraAngle st = [] \<or> cameraAngle st = ''None'' then p
         else p @ '', shot from '' @ cameraAngle st)
      else
        (if cameraAngle st = [] \<or> cameraAngle st = ''None'' then p @ '', in '' @ style st @ '' style''
         else p @ '', in '' @ style st @ '' style, shot from '' @ cameraAngle st))"
  by (simp add: finalPrompt_def modifiers_def)

text \<open>
  C6, as amended. The parts of the request are the image attachments, all of them inline
  data, followed by exactly one text part. A style or camera angle counts as unset when it
  is empty or \<open>None\<close>. The text is the prompt unchanged when both are unset; otherwise it
  is the prompt, a comma, and the clauses of the settings that are set, the style clause
  before the camera clause.
\<close>

theorem prompt_augmentation:
  "parts (buildRequest env imgs p st) = imageParts env imgs @ [TextPart (finalPrompt p st)] \<and>
   (\<forall>a\<in>set (imageParts env imgs). \<exists>d m. a = InlineData d m) \<and>
   finalPrompt p st =
     (if style st = [] \<or> style st = ''None'' then
        (if cameraAngle st = [] \<or> cameraAngle st = ''None'' then p
         else p @ '', shot from '' @ cameraAngle st)
      else
        (if cameraAngle st = [] \<or> cameraAngle st = ''None'' then p @ '', in '' @ style st @ '' style''
         else p @ '', in '' @ style st @ '' style, shot from '' @ cameraAngle st))"
  using imageParts_inline [of _ env imgs] finalPrompt_cases [of p st]
  by (simp add: buildRequest_def)

text \<open>The two scenarios of the specification.\<close>

theorem prompt_augmentation_witness:
  "parts (buildRequest exampleBrowser [] ''portrait'' cinematicLowAngle) =
     [TextPart ''portrait, in Cinematic style, shot from Low Angle''] \<and>
   parts (buildRequest exampleBrowser [] ''a red bicycle'' plain1K) = [TextPart ''a red bicycle'']"
  using prompt_augmentation [of exampleBrowser "[]" "''portrait''" cinematicLowAngle]
    prompt_augmentation [of exampleBrowser "[]" "''a red bicycle''" plain1K]
  by (simp add: cinematicLowAngle_def plain1K_def imageParts_def)

text \<open>
  C6 as first stated fails for an empty style: style and camera angle are not both
  \<open>None\<close>, and yet the text is the prompt with no clause appended.
\<close>

theorem prompt_text_counterexample:
  "\<not> (style emptyStyle = ''None'' \<and> cameraAngle emptyStyle = ''None'') \<and>
   parts (buildRequest exampleBrowser [] ''portrait'' emptyStyle) = [TextPart ''portrait'']"
  by (simp add: emptyStyle_def buildRequest_def imageParts_def finalPrompt_def modifiers_def)

section \<open>The preprocessor\<close>

lemma resize_resolves: "\<exists>out. resizeBase64Image env s m = Resolved out"
  by (simp add: resizeBase64Image_def split: LoadResult.split prod.split)

text \<open>The rounded quotient is within one half of the exact one.\<close>

lemma roundDiv_bounds:
  assumes "0 < b"
  shows "2 * b * roundDiv a b \<le> 2 * a + b \<and> 2 * a < 2 * b * roundDiv a b + b"
proof -
  have "(2 * a + b) div (2 * b) * (2 * b) \<le> 2 * a + b"
    by (rule div_times_less_eq_dividend)
  moreover have "0 < 2 * b" using assms by simp
  then have "2 * a + b < 2 * b + (2 * a + b) div (2 * b) * (2 * b)"
    by (rule dividend_less_div_times)
  ultimately show ?thesis by (simp add: roundDiv_def mult.commute)
qed

lemma roundDiv_le:
  assumes "a \<le> b * m" and "0 < b"
  shows "roundDiv a b \<le> m"
proof -
  have "2 * a + b < 2 * b * (m + 1)" using assms by simp
  then have "(2 * a + b) div (2 * b) < m + 1"
    by (metis less_mult_imp_div_less mult.commute)
  then show ?thesis by (simp add: roundDiv_def)
qed

lemma newDimensions_wide:
  assumes "h < w" "m < w"
  shows "newDimensions w h m = (m, roundDiv (h * m) w) \<and> roundDiv (h * m) w \<le> m \<and>
     2 * w * roundDiv (h * m) w \<le> 2 * h * m + w \<and> 2 * h * m < 2 * w * roundDiv (h * m) w + w"
proof -
  have w: "0 < w" using assms by simp
  have "h * m \<le> w * m" using assms by simp
  then have "roundDiv (h * m) w \<le> m" using w by (rule roundDiv_le)
  with roundDiv_bounds [OF w, of "h * m"] assms show ?thesis
    by (simp add: newDimensions_def mult.assoc)
qed

lemma newDimensions_tall:
  assumes "w \<le> h" "m < h"
  shows "newDimensions w h m = (roundDiv (w * m) h, m) \<and> roundDiv (w * m) h \<le> m \<and>
     2 * h * roundDiv (w * m) h \<le> 2 * w * m + h \<and> 2 * w * m < 2 * h * roundDiv (w * m) h + h"
proof -
  have h: "0 < h" using assms by simp
  have "w * m \<le> h * m" using assms by simp
  then have "roundDiv (w * m) h \<le> m" using h by (rule roundDiv_le)
  with roundDiv_bounds [OF h, of "w * m"] assms show ?thesis
    by (simp add: newDimensions_def mult.assoc)
qed

text \<open>
  C7, as amended. With the bound 1024, the input is returned unchanged when it is shorter
  than 50000 characters, when it decodes to a width and a height of at most 1024, when it
  fails to decode, and when there is no window or no 2D canvas context. An input of at
  least 50000 characters that decodes to a width or a height above 1024, in a browser
  that gives a 2D context, is returned as the JPEG of a canvas whose longer side is 1024
  and whose other side is the exactly scaled length rounded to the nearest integer (the
  two inequalities say that it is within one half of it). In every case the promise
  resolves.
\<close>

theorem preprocessor_contract:
  "(length s < 50000 \<longrightarrow> resizeBase64Image env s 1024 = Resolved s) \<and>
   (\<forall>w h. loadImage env s = Loaded w h \<and> w \<le> 1024 \<and> h \<le> 1024 \<longrightarrow>
      resizeBase64Image env s 1024 = Resolved s) \<and>
   (loadImage env s = LoadError \<longrightarrow> resizeBase64Image env s 1024 = Resolved s) \<and>
   (\<not> hasWindow env \<or> \<not> hasContext2d env \<longrightarrow> resizeBase64Image env s 1024 = Resolved s) \<and>
   (\<forall>w h. hasWindow env \<and> 50000 \<le> length s \<and> loadImage env s = Loaded w h \<and>
      (1024 < w \<or> 1024 < h) \<and> hasContext2d env \<longrightarrow>
      (\<exists>w' h'. resizeBase64Image env s 1024 = Resolved (toDataURL env s w' h') \<and>
         max w' h' = 1024 \<and>
         (h < w \<longrightarrow> w' = 1024 \<and> 2 * w * h' \<le> 2 * h * 1024 + w \<and> 2 * h * 1024 < 2 * w * h' + w) \<and>
         (w \<le> h \<longrightarrow> h' = 1024 \<and> 2 * h * w' \<le> 2 * w * 1024 + h \<and> 2 * w * 1024 < 2 * h * w' + h))) \<and>
   (\<exists>out. resizeBase64Image env s 1024 = Resolved out)"
proof (intro conjI allI impI)
  show "length s < 50000 \<Longrightarrow> resizeBase64Image env s 1024 = Resolved s"
    by (simp add: resizeBase64Image_def)
  show "loadImage env s = Loaded w h \<and> w \<le> 1024 \<and> h \<le> 1024 \<Longrightarrow>
      resizeBase64Image env s 1024 = Resolved s" for w h
    by (simp add: resizeBase64Image_def)
  show "loadImage env s = LoadError \<Longrightarrow> resizeBase64Image env s 1024 = Resolved s"
    by (simp add: resizeBase64Image_def)
  show "\<not> hasWindow env \<or> \<not> hasContext2d env \<Longrightarrow> resizeBase64Image env s 1024 = Resolved s"
    by (auto simp add: resizeBase64Image_def split: LoadResult.split prod.split)
  show "\<exists>out. resizeBase64Image env s 1024 = Resolved out"
    by (rule resize_resolves)
next
  fix w h
  assume a: "hasWindow env \<and> 50000 \<le> length s \<and> loadImage env s = Loaded w h \<and>
      (1024 < w \<or> 1024 < h) \<and> hasContext2d env"
  show "\<exists>w' h'. resizeBase64Image env s 1024 = Resolved (toDataURL env s w' h') \<and>
         max w' h' = 1024 \<and>
         (h < w \<longrightarrow> w' = 1024 \<and> 2 * w * h' \<le> 2 * h * 1024 + w \<and> 2 * h * 1024 < 2 * w * h' + w) \<and>
         (w \<le> h \<longrightarrow> h' = 1024 \<and> 2 * h * w' \<le> 2 * w * 1024 + h \<and> 2 * w * 1024 < 2 * h * w' + h)"
  proof (cases "h < w")
    case True
    with a have big: "1024 < w" by auto
    then have "\<not> w \<le> 1024" by simp
    with newDimensions_wide [OF True big] a True show ?thesis
      by (rule_tac x = 1024 in exI, rule_tac x = "roundDiv (h * 1024) w" in exI)
         (simp add: resizeBase64Image_def max_def)
  next
    case False
    with a have big: "1024 < h" by auto
    then have "\<not> h \<le> 1024" by simp
    with newDimensions_tall [OF _ big, of w] a False show ?thesis
      by (rule_tac x = "roundDiv (w * 1024) h" in exI, rule_tac x = 1024 in exI)
         (simp add: resizeBase64Image_def max_def)
  qed
qed

text \<open>
  An image of 2048 by 1024 pixels is drawn on a canvas of 1024 by 512, and a short data
  URL is returned as it is.
\<close>

theorem preprocessor_contract_witness:
  "resizeBase64Image exampleBrowser bigImage 1024 =
     Resolved (toDataURL exampleBrowser bigImage 1024 512) \<and>
   resizeBase64Image exampleBrowser pngImage 1024 = Resolved pngImage"
proof -
  have h: "hasWindow exampleBrowser \<and> 50000 \<le> length bigImage \<and>
      loadImage exampleBrowser bigImage = Loaded 2048 1024 \<and>
      (1024 < (2048::nat) \<or> 1024 < (1024::nat)) \<and> hasContext2d exampleBrowser"
    by (simp add: exampleBrowser_def bigImage_def)
  from preprocessor_contract [of bigImage exampleBrowser] h
  obtain w' h' where r: "resizeBase64Image exampleBrowser bigImage 1024 =
      Resolved (toDataURL exampleBrowser bigImage w' h')"
    and w: "w' = 1024" and lo: "2 * 2048 * h' \<le> 2 * 1024 * 1024 + (2048::nat)"
    and hi: "2 * 1024 * 1024 < 2 * 2048 * h' + (2048::nat)"
    by force
  from lo hi have "h' = 512" by simp
  with r w have "resizeBase64Image exampleBrowser bigImage 1024 =
     Resolved (toDataURL exampleBrowser bigImage 1024 512)" by simp
  moreover from preprocessor_contract [of pngImage exampleBrowser]
  have "resizeBase64Image exampleBrowser pngImage 1024 = Resolved pngImage"
    by (simp add: pngImage_def)
  ultimately show ?thesis by simp
qed

text \<open>
  C7 as first stated fails where the canvas gives no 2D context: the input has 50000
  characters and decodes to 2048 by 1024 pixels, and it is returned unchanged, so the
  longer side of the output is 2048.
\<close>

theorem preprocessor_bound_counterexample:
  "hasWindow noContextBrowser \<and> 50000 \<le> length bigImage \<and>
   loadImage noContextBrowser bigImage = Loaded 2048 1024 \<and>
   resizeBase64Image noContextBrowser bigImage 1024 = Resolved bigImage"
  by (simp add: noContextBrowser_def exampleBrowser_def bigImage_def resizeBase64Image_def
      newDimensions_def)

section \<open>Attachments\<close>

lemma promiseAll_map:
  "(\<And>x. x \<in> set xs \<Longrightarrow> f x = Resolved (g x)) \<Longrightarrow> promiseAll (map f xs) = Resolved (map g xs)"
  by (induction xs) simp_all

text \<open>All resize promises resolve, so the \<^verbatim>\<open>catch\<close> branch of the attachments is never taken.\<close>

lemma promiseAll_resize:
  "\<exists>processed. promiseAll (map (resizeDefault env) imgs) = Resolved processed \<and>
      length processed = length imgs \<and>
      (\<forall>k<length imgs. resizeDefault env (imgs ! k) = Resolved (processed ! k))"
proof -
  define g where "g = (\<lambda>s. SOME out. resizeDefault env s = Resolved out)"
  have g: "resizeDefault env s = Resolved (g s)" for s
    unfolding g_def resizeDefault_def using resize_resolves [of env s 1024]
    by (rule someI_ex)
  have "promiseAll (map (resizeDefault env) imgs) = Resolved (map g imgs)"
    by (rule promiseAll_map) (rule g)
  then show ?thesis using g by (intro exI [of _ "map g imgs"]) simp
qed

lemma startsWith_iff: "startsWith s p \<longleftrightarrow> (\<exists>r. s = p @ r)"
  unfolding startsWith_def
  by (metis append_eq_conv_conj append_take_drop_id)

lemma not_letter_semicolon: "\<not> isLetter (CHR '';'')"
  by (simp add: isLetter_def)

text \<open>
  The pattern of the media type matches exactly the strings that begin with
  \<^verbatim>\<open>data:image/\<close>, one or more letters, and \<^verbatim>\<open>;base64,\<close>.
\<close>

lemma mimeTypeMatch_iff:
  "mimeTypeMatch img = Some m \<longleftrightarrow>
     (\<exists>letters rest. img = ''data:image/'' @ letters @ '';base64,'' @ rest \<and> letters \<noteq> [] \<and>
        (\<forall>c\<in>set letters. isLetter c) \<and> m = ''image/'' @ letters)"
proof
  assume a: "mimeTypeMatch img = Some m"
  then have sw: "startsWith img ''data:image/''"
    by (simp add: mimeTypeMatch_def split: if_splits)
  then obtain r where r: "img = ''data:image/'' @ r" unfolding startsWith_iff by blast
  have dr: "drop 11 img = r" using r by simp
  from a sw dr have l: "takeWhile isLetter r \<noteq> []"
    and s2: "startsWith (dropWhile isLetter r) '';base64,''"
    and m: "m = ''image/'' @ takeWhile isLetter r"
    by (auto simp add: mimeTypeMatch_def Let_def split: if_splits)
  from s2 obtain rest where rest: "dropWhile isLetter r = '';base64,'' @ rest"
    unfolding startsWith_iff by blast
  have "r = takeWhile isLetter r @ '';base64,'' @ rest"
    using rest takeWhile_dropWhile_id [of isLetter r] by metis
  with r l m show "\<exists>letters rest. img = ''data:image/'' @ letters @ '';base64,'' @ rest \<and>
      letters \<noteq> [] \<and> (\<forall>c\<in>set letters. isLetter c) \<and> m = ''image/'' @ letters"
    by (metis set_takeWhileD)
next
  assume "\<exists>letters rest. img = ''data:image/'' @ letters @ '';base64,'' @ rest \<and>
      letters \<noteq> [] \<and> (\<forall>c\<in>set letters. isLetter c) \<and> m = ''image/'' @ letters"
  then obtain letters rest where img: "img = ''data:image/'' @ letters @ '';base64,'' @ rest"
    and ne: "letters \<noteq> []" and al: "\<forall>c\<in>set letters. isLetter c"
    and m: "m = ''image/'' @ letters" by blast
  have tw: "takeWhile isLetter (letters @ '';base64,'' @ rest) = letters"
    using al not_letter_semicolon by (simp add: takeWhile_append2 del: One_nat_def)
  have dw: "dropWhile isLetter (letters @ '';base64,'' @ rest) = '';base64,'' @ rest"
    using al not_letter_semicolon by (simp add: dropWhile_append2)
  have sw: "startsWith img ''data:image/''" using img by (simp add: startsWith_def)
  have dr: "drop 11 img = letters @ '';base64,'' @ rest" using img by simp
  show "mimeTypeMatch img = Some m"
    unfolding mimeTypeMatch_def using sw dr tw dw ne m by (simp add: startsWith_def)
qed

text \<open>
  Every source image becomes exactly one inline attachment, made from the preprocessed
  image; its tag is the match of the pattern, and \<open>image/jpeg\<close> without a match.
\<close>

lemma attachments_by_pattern:
  "\<exists>processed.
     promiseAll (map (resizeDefault env) imgs) = Resolved processed \<and>
     length processed = length imgs \<and>
     (\<forall>k<length imgs. resizeDefault env (imgs ! k) = Resolved (processed ! k)) \<and>
     imageParts env imgs =
       map (\<lambda>img. InlineData (stripHeader img)
                    (case mimeTypeMatch img of Some m \<Rightarrow> m | None \<Rightarrow> ''image/jpeg''))
         processed"
proof -
  from promiseAll_resize [of env imgs] obtain processed where
    p: "promiseAll (map (resizeDefault env) imgs) = Resolved processed"
    and l: "length processed = length imgs"
    and k: "\<forall>k<length imgs. resizeDefault env (imgs ! k) = Resolved (processed ! k)"
    by blast
  have "imageParts env imgs =
       map (\<lambda>img. InlineData (stripHeader img)
                    (case mimeTypeMatch img of Some m \<Rightarrow> m | None \<Rightarrow> ''image/jpeg''))
         processed"
    using p l by (cases "imgs = []") (auto simp add: imageParts_def inlinePart_def fun_eq_iff)
  with p l k show ?thesis by blast
qed

lemma attachments_png_and_bare:
  "imageParts exampleBrowser [pngImage, bareImage] =
     [InlineData ''AAAA'' ''image/png'', InlineData ''CCCC'' ''image/jpeg'']"
  by (simp add: imageParts_def inlinePart_def resizeDefault_def resizeBase64Image_def
      exampleBrowser_def pngImage_def bareImage_def stripHeader_def knownHeaders_def
      mimeTypeMatch_def startsWith_def isLetter_def)

text \<open>
  C9. The header of the SVG data URL names the media type \<open>image/svg+xml\<close>. The image is
  short, so the preprocessor returns it as it is; the pattern of the media type admits
  letters only and does not match, and the attachment is tagged \<open>image/jpeg\<close>.
\<close>

theorem svg_attachment_tag:
  "resizeDefault exampleBrowser svgImage = Resolved svgImage \<and>
   startsWith svgImage ''data:image/svg+xml;base64,'' \<and>
   imageParts exampleBrowser [svgImage] = [InlineData svgImage ''image/jpeg'']"
  by (simp add: imageParts_def inlinePart_def resizeDefault_def resizeBase64Image_def
      exampleBrowser_def svgImage_def stripHeader_def knownHeaders_def
      mimeTypeMatch_def startsWith_def isLetter_def)

section \<open>The result of the gateway\<close>

text \<open>The loop over the parts collects the images and the text in the order of the response.\<close>

lemma collectParts_eq:
  "collectParts ps (images, t) =
     (images @ map (\<lambda>part. ''data:image/png;base64,'' @ the (inlineData part))
        (filter (\<lambda>part. inlineData part \<noteq> None \<and> inlineData part \<noteq> Some []) ps),
      t @ concat (map (\<lambda>part. the (text_part part))
        (filter (\<lambda>part. \<not> (inlineData part \<noteq> None \<and> inlineData part \<noteq> Some []) \<and>
                         text_part part \<noteq> None \<and> text_part part \<noteq> Some []) ps)))"
  by (induction ps arbitrary: images t) auto

lemma includesStr_Nil [simp]: "includesStr s []"
  by (cases s) (simp_all add: startsWith_def)

lemma classifyError_nonempty: "classifyError e \<noteq> []"
  by (simp add: classifyError_def Let_def)

lemma gateway_message_nonempty:
  "editImageWithGemini env tem gc imgs p st = Inl msg \<Longrightarrow> msg \<noteq> []"
  using classifyError_nonempty
  by (auto simp add: editImageWithGemini_def split: sum.splits)

lemma classify_no_image:
  "classifyError (Thrown ''No image generated.'' ''Error: No image generated.'') =
     ''No image generated.''"
  by (simp add: classifyError_def startsWith_def)

lemma classify_v8:
  "classifyError (Thrown (v8Message ''parts'') x) = v8Message ''parts''"
  "classifyError (Thrown (v8Message ''content'') x) = v8Message ''content''"
  by (simp_all add: classifyError_def startsWith_def v8Message_def)

text \<open>
  Where the candidates are absent, or the first candidate has content whose parts are
  absent or hold neither image data nor text, the call fails with the fixed message.
\<close>

lemma gateway_no_output:
  assumes "generateContent (buildRequest env imgs p st) = Inr r"
    and "candidates r = None \<or>
         (\<exists>c cs. candidates r = Some (c # cs) \<and>
            (content c = Some None \<or>
             (\<exists>ps. content c = Some (Some ps) \<and>
                (\<forall>part\<in>set ps. (inlineData part = None \<or> inlineData part = Some []) \<and>
                                (text_part part = None \<or> text_part part = Some [])))))"
  shows "editImageWithGemini env tem generateContent imgs p st = Inl ''No image generated.''"
proof -
  have "decodeResponse tem r = Inl (Thrown ''No image generated.'' ''Error: No image generated.'')"
    using assms(2)
  proof (elim disjE exE conjE)
    assume "candidates r = None"
    then show ?thesis by (simp add: decodeResponse_def)
  next
    fix c cs assume "candidates r = Some (c # cs)" "content c = Some None"
    then show ?thesis by (simp add: decodeResponse_def)
  next
    fix c cs ps
    assume c: "candidates r = Some (c # cs)" "content c = Some (Some ps)"
      and n: "\<forall>part\<in>set ps. (inlineData part = None \<or> inlineData part = Some []) \<and>
                                (text_part part = None \<or> text_part part = Some [])"
    from n have "filter (\<lambda>part. inlineData part \<noteq> None \<and> inlineData part \<noteq> Some []) ps = []"
      and "filter (\<lambda>part. \<not> (inlineData part \<noteq> None \<and> inlineData part \<noteq> Some []) \<and>
                         text_part part \<noteq> None \<and> text_part part \<noteq> Some []) ps = []"
      by (auto simp add: filter_empty_conv)
    then have "collectParts ps ([], []) = ([], [])" by (simp add: collectParts_eq)
    with c show ?thesis by (simp add: decodeResponse_def)
  qed
  with assms(1) show ?thesis by (simp add: editImageWithGemini_def classify_no_image)
qed

text \<open>
  Where the first candidate has parts with an image or some text, the call returns the
  images in the order of the response and the concatenated text.
\<close>

lemma gateway_returns:
  assumes "generateContent (buildRequest env imgs p st) = Inr r"
    and "candidates r = Some (c # cs)" and "content c = Some (Some ps)"
    and "images = map (\<lambda>part. ''data:image/png;base64,'' @ the (inlineData part))
        (filter (\<lambda>part. inlineData part \<noteq> None \<and> inlineData part \<noteq> Some []) ps)"
    and "t = concat (map (\<lambda>part. the (text_part part))
        (filter (\<lambda>part. \<not> (inlineData part \<noteq> None \<and> inlineData part \<noteq> Some []) \<and>
                         text_part part \<noteq> None \<and> text_part part \<noteq> Some []) ps))"
    and "images \<noteq> [] \<or> t \<noteq> []"
  shows "editImageWithGemini env tem generateContent imgs p st = Inr (images, t)"
proof -
  have "collectParts ps ([], []) = (images, t)" using assms(4,5) by (simp add: collectParts_eq)
  with assms(2,3,6) have "decodeResponse tem r = Inr (images, t)"
    by (auto simp add: decodeResponse_def)
  with assms(1) show ?thesis by (simp add: editImageWithGemini_def)
qed

text \<open>
  C8. A response whose first candidate has no content, and a response with an empty list
  of candidates, contain neither image data nor text. The unguarded read of
  \<^verbatim>\<open>candidates[0].content.parts\<close> throws, and the call fails with the engine's message
  instead of the fixed message \<open>No image generated.\<close>
\<close>

theorem empty_result_type_error:
  "editImageWithGemini env v8Message (\<lambda>request. Inr candidateWithoutContent) imgs p st =
     Inl (v8Message ''parts'') \<and>
   editImageWithGemini env v8Message (\<lambda>request. Inr \<lparr> candidates = Some [] \<rparr>) imgs p st =
     Inl (v8Message ''content'') \<and>
   v8Message ''parts'' \<noteq> ''No image generated.'' \<and>
   v8Message ''content'' \<noteq> ''No image generated.''"
proof -
  have "v8Message ''parts'' \<noteq> ''No image generated.''"
    and "v8Message ''content'' \<noteq> ''No image generated.''"
    by (simp_all add: v8Message_def)
  then show ?thesis
    by (simp add: editImageWithGemini_def decodeResponse_def candidateWithoutContent_def classify_v8)
qed

section \<open>Trimming a prompt\<close>

text \<open>
  The prompts of the runs below are kept by \<open>trim\<close>; a prompt of spaces, tabs, line ends
  or no-break spaces is trimmed to the empty string, and is not enqueued.
\<close>

lemma trim_examples:
  "trim ''a red bicycle'' = ''a red bicycle''"
  "trim ''a blue boat'' = ''a blue boat''"
  "trim ''a green kite'' = ''a green kite''"
  "trim ''merge the two'' = ''merge the two''"
  by (simp_all add: trim_def isWhiteSpace_def)

lemma trim_bgPrompt: "trim bgPrompt \<noteq> []"
  by (simp add: bgPrompt_def trim_def isWhiteSpace_def)

lemma trim_white_space:
  "trim [] = []"
  "trim ''   '' = []"
  "trim [CHR 0x09, CHR 0x0A, CHR 0x0B, CHR 0x0C, CHR 0x0D, CHR 0x20] = []"
  "trim [CHR 0xA0] = []"
  "trim ([CHR 0xA0] @ '' a kite '' @ [CHR 0x0A, CHR 0xA0]) = ''a kite''"
  by (simp_all add: trim_def isWhiteSpace_def)

lemma trim_blank_iff: "trim p = [] \<longleftrightarrow> (\<forall>c\<in>set p. isWhiteSpace c)"
proof
  assume "trim p = []"
  then have "dropWhile isWhiteSpace (rev (dropWhile isWhiteSpace p)) = []"
    by (simp add: trim_def)
  then have "\<forall>c\<in>set (dropWhile isWhiteSpace p). isWhiteSpace c"
    by (simp add: dropWhile_eq_Nil_conv)
  moreover have "\<forall>c\<in>set (takeWhile isWhiteSpace p). isWhiteSpace c"
    by (auto dest: set_takeWhileD)
  ultimately have "\<forall>c\<in>set (takeWhile isWhiteSpace p @ dropWhile isWhiteSpace p). isWhiteSpace c"
    unfolding set_append by blast
  then show "\<forall>c\<in>set p. isWhiteSpace c" by (simp only: takeWhile_dropWhile_id)
next
  assume "\<forall>c\<in>set p. isWhiteSpace c"
  then show "trim p = []" by (auto simp add: trim_def dest: set_dropWhileD)
qed

lemma addToQueue_blank:
  "trim p = [] \<Longrightarrow> addToQueue newId now c p ov s = s"
  by (simp add: addToQueue_def)


section \<open>The admission step\<close>

lemma admit_objects [simp]: "objects (admit xs s) = objects s"
  by (induction xs arbitrary: s) (simp_all add: callGateway_def markItem_def)

lemma admit_arrays [simp]: "arrays (admit xs s) = arrays s"
  by (induction xs arbitrary: s) (simp_all add: callGateway_def markItem_def)

lemma admit_nextAddr [simp]: "nextAddr (admit xs s) = nextAddr s"
  by (induction xs arbitrary: s) (simp_all add: callGateway_def markItem_def)

lemma admit_settings_state [simp]: "settings_state (admit xs s) = settings_state s"
  by (induction xs arbitrary: s) (simp_all add: callGateway_def markItem_def)

lemma admit_sourceImages_state [simp]: "sourceImages_state (admit xs s) = sourceImages_state s"
  by (induction xs arbitrary: s) (simp_all add: callGateway_def markItem_def)

lemma admit_generatedImages [simp]: "generatedImages (admit xs s) = generatedImages s"
  by (induction xs arbitrary: s) (simp_all add: callGateway_def markItem_def)

lemma admit_textResponse [simp]: "textResponse (admit xs s) = textResponse s"
  by (induction xs arbitrary: s) (simp_all add: callGateway_def markItem_def)

lemma admit_queue: "queue (admit xs s) = foldl (\<lambda>q it. markProcessing it q) (queue s) xs"
  by (induction xs arbitrary: s) (simp_all add: callGateway_def markItem_def)

lemma admit_inFlight:
  "inFlight (admit xs s) = inFlight s @
     map (\<lambda>it. \<lparr> call_item = it, call_images = arrays s (sourceImages it),
                  call_settings = objects s (settings it) \<rparr>) xs"
  by (induction xs arbitrary: s) (simp_all add: callGateway_def markItem_def)

lemma ids_markProcessing [simp]: "map item_id (markProcessing it q) = map item_id q"
  by (simp add: markProcessing_def)

lemma ids_foldl_mark [simp]:
  "map item_id (foldl (\<lambda>q it. markProcessing it q) q xs) = map item_id q"
  by (induction xs arbitrary: q) simp_all

lemma ids_map_update [simp]:
  "map item_id (map (\<lambda>i. if P i then i \<lparr> status := st, error := e \<rparr> else i) q) = map item_id q"
  by (induction q) auto

lemma ids_comp_update [simp]:
  "item_id \<circ> (\<lambda>i. if P i then i \<lparr> status := st, error := e \<rparr> else i) = item_id"
  by (auto simp add: fun_eq_iff)

section \<open>Bounded concurrency\<close>

text \<open>Marking by identifier changes at most one item when the identifiers are distinct.\<close>

lemma count_markProcessing:
  "distinct (map item_id q) \<Longrightarrow> processingCount (markProcessing it q) \<le> Suc (processingCount q)"
proof (induction q)
  case Nil
  then show ?case by (simp add: markProcessing_def processingCount_def)
next
  case (Cons a q)
  show ?case
  proof (cases "item_id a = item_id it")
    case True
    with Cons.prems have "item_id it \<notin> item_id ` set q" by simp
    then have "\<forall>i\<in>set q. item_id i \<noteq> item_id it" by (metis image_eqI)
    then have "markProcessing it q = q" by (simp add: markProcessing_def map_idI)
    with True show ?thesis by (simp add: markProcessing_def processingCount_def)
  next
    case False
    with Cons show ?thesis by (simp add: markProcessing_def processingCount_def)
  qed
qed

lemma count_foldl_mark:
  "distinct (map item_id q) \<Longrightarrow>
     processingCount (foldl (\<lambda>q it. markProcessing it q) q xs) \<le> processingCount q + length xs"
proof (induction xs arbitrary: q)
  case Nil
  then show ?case by simp
next
  case (Cons x xs)
  have "distinct (map item_id (markProcessing x q))" using Cons.prems by simp
  from Cons.IH [OF this] count_markProcessing [OF Cons.prems, of x]
  show ?case by simp
qed

lemma count_processNextItems:
  assumes "distinct (map item_id (queue s))" "processingCount (queue s) \<le> maxParallel"
  shows "processingCount (queue (processNextItems s)) \<le> maxParallel"
proof (cases "processingCount (queue s) \<ge> maxParallel \<or> length (pendingItems (queue s)) = 0")
  case True
  then show ?thesis using assms by (auto simp add: processNextItems_def)
next
  case False
  have "length (pendingItems (queue s)) \<le> maxParallel - processingCount (queue s)"
    by (simp add: pendingItems_def)
  moreover from False have "processingCount (queue s) < maxParallel" by simp
  moreover note count_foldl_mark [OF assms(1), of "pendingItems (queue s)"]
  ultimately have "processingCount (foldl (\<lambda>q it. markProcessing it q) (queue s) (pendingItems (queue s)))
      \<le> maxParallel" by linarith
  with False show ?thesis by (simp add: processNextItems_def admit_queue)
qed

lemma count_filter: "processingCount (filter P q) \<le> processingCount q"
  unfolding processingCount_def
  by (induction q) auto

lemma count_map_not_processing:
  "st \<noteq> processing \<Longrightarrow>
   processingCount (map (\<lambda>i. if P i then i \<lparr> status := st, error := e \<rparr> else i) q) \<le> processingCount q"
  unfolding processingCount_def by (induction q) auto

lemma queue_settle:
  "queue (settle env tem gc uuid clock call s) = filter (\<lambda>i. item_id i \<noteq> item_id (call_item call)) (queue s)
   \<or> (\<exists>m. queue (settle env tem gc uuid clock call s) =
        map (\<lambda>i. if item_id i = item_id (call_item call) then i \<lparr> status := failed, error := Some m \<rparr> else i) (queue s))"
  by (auto simp add: settle_def onSuccess_def onFailure_def Let_def split: sum.split prod.split)

text \<open>The invariant of the queue: distinct identifiers, and the bound.\<close>

lemma queueInv_step:
  assumes "step s s'"
    and "distinct (map item_id (queue s)) \<and> processingCount (queue s) \<le> maxParallel"
  shows "distinct (map item_id (queue s')) \<and> processingCount (queue s') \<le> maxParallel"
  using assms
proof (induction rule: step.induct)
  case (enqueue newId s closure now currentPrompt overrideSettings)
  then show ?case
    by (auto simp add: addToQueue_def Let_def processingCount_def)
next
  case (admission s)
  then show ?case
    using count_processNextItems [of s]
    by (auto simp add: processNextItems_def admit_queue)
next
  case (settled call s env typeErrorMessage generateContent uuid clock)
  from queue_settle [of env typeErrorMessage generateContent uuid clock call s]
  show ?case
  proof
    assume q: "queue (settle env typeErrorMessage generateContent uuid clock call s) =
      filter (\<lambda>i. item_id i \<noteq> item_id (call_item call)) (queue s)"
    from settled show ?thesis unfolding q
      using count_filter [of "\<lambda>i. item_id i \<noteq> item_id (call_item call)" "queue s"]
      by (auto simp add: distinct_map_filter)
  next
    assume "\<exists>m. queue (settle env typeErrorMessage generateContent uuid clock call s) =
        map (\<lambda>i. if item_id i = item_id (call_item call) then i \<lparr> status := failed, error := Some m \<rparr> else i) (queue s)"
    then obtain m where q: "queue (settle env typeErrorMessage generateContent uuid clock call s) =
        map (\<lambda>i. if item_id i = item_id (call_item call) then i \<lparr> status := failed, error := Some m \<rparr> else i) (queue s)"
      by blast
    from settled show ?thesis unfolding q
      using count_map_not_processing [of failed "\<lambda>i. item_id i = item_id (call_item call)" "Some m" "queue s"]
      by auto
  qed
next
  case (cancel s i)
  then show ?case unfolding cancelQueueItem_def
    using count_filter [of "\<lambda>item. item_id item \<noteq> i" "queue s"]
    by (auto simp add: distinct_map_filter)
next
  case (retry s item)
  then show ?case unfolding retryQueueItem_def
    using count_map_not_processing [of pending "\<lambda>i. item_id i = item_id item" None "queue s"]
    by auto
qed (simp_all add: setSourceImages_def setSettings_def writeSourceImages_def
      writeSettings_def setIsImageMode_def setPrompt_def)

lemma queueInv_reachable:
  "reachable s \<Longrightarrow> distinct (map item_id (queue s)) \<and> processingCount (queue s) \<le> maxParallel"
proof (induction rule: reachable.induct)
  case (start s)
  then show ?case by (simp add: initial_def processingCount_def)
next
  case (advance s s')
  then show ?case using queueInv_step by blast
qed

lemma three_reachable: "reachable threeEnqueued"
  unfolding threeEnqueued_def enqueueNow_def
  apply (rule reachable.advance [OF _ step.enqueue])
  apply (rule reachable.advance [OF _ step.enqueue])
  apply (rule reachable.advance [OF _ step.enqueue])
             apply (rule reachable.start)
             apply (simp_all add: initial_def mounted_def currentClosure_def addToQueue_def
               trim_examples Let_def)
  done

lemma three_admitted:
  "map status (queue (processNextItems threeEnqueued)) = [processing, processing, pending]"
  by (simp add: threeEnqueued_def mounted_def enqueueNow_def currentClosure_def addToQueue_def
    trim_examples Let_def
    processNextItems_def pendingItems_def processingCount_def maxParallel_def markProcessing_def
    callGateway_def markItem_def)

text \<open>
  C1. In every state that the component reaches from an empty queue by enqueueing,
  admitting, settling a gateway call with success or failure, cancelling and retrying (and
  by any change to the live settings and source images), the number of queue items whose
  status is \<open>processing\<close> is at most \<open>maxParallel\<close>, which is 2.
\<close>

theorem bounded_concurrency:
  "reachable s \<Longrightarrow> processingCount (queue s) \<le> maxParallel \<and> maxParallel = 2"
  using queueInv_reachable [of s] by (simp add: maxParallel_def)

theorem bounded_concurrency_witness:
  "reachable (processNextItems threeEnqueued) \<and>
   processingCount (queue (processNextItems threeEnqueued)) \<le> maxParallel \<and> maxParallel = 2"
proof -
  have r: "reachable (processNextItems threeEnqueued)"
    by (rule reachable.advance [OF three_reachable step.admission])
  from bounded_concurrency [OF r] r show ?thesis by simp
qed

section \<open>Admission in queue order\<close>

lemma foldl_mark_map:
  "foldl (\<lambda>q it. markProcessing it q) q xs =
     map (\<lambda>i. if item_id i \<in> item_id ` set xs then i \<lparr> status := processing \<rparr> else i) q"
proof (induction xs arbitrary: q)
  case Nil
  then show ?case by (simp add: map_idI)
next
  case (Cons x xs)
  show ?case
    unfolding foldl_Cons Cons.IH
    by (auto simp add: markProcessing_def)
qed

lemma pendingItems_subset: "set (pendingItems q) \<subseteq> set q"
  unfolding pendingItems_def by (meson filter_is_subset order_trans set_take_subset)

lemma pendingItems_pending: "it \<in> set (pendingItems q) \<Longrightarrow> status it = pending"
  unfolding pendingItems_def using in_set_takeD by fastforce

lemma mark_admitted:
  assumes "distinct (map item_id q)"
  shows "foldl (\<lambda>q it. markProcessing it q) q (pendingItems q) =
     map (\<lambda>i. if i \<in> set (pendingItems q) then i \<lparr> status := processing \<rparr> else i) q"
proof -
  have inj: "inj_on item_id (set q)" using assms by (simp add: distinct_map)
  have "item_id i \<in> item_id ` set (pendingItems q) \<longleftrightarrow> i \<in> set (pendingItems q)"
    if "i \<in> set q" for i
    using inj that pendingItems_subset [of q] by (meson inj_on_image_mem_iff)
  then show ?thesis unfolding foldl_mark_map by (intro map_cong) auto
qed

text \<open>
  The first \<open>k\<close> elements that satisfy \<open>P\<close> are taken in the order of the list: an
  element that satisfies \<open>P\<close> and stands before a taken one is taken too.
\<close>

lemma take_filter_earlier:
  "distinct q \<Longrightarrow> n < length q \<Longrightarrow> m < n \<Longrightarrow> P (q ! m) \<Longrightarrow>
     q ! n \<in> set (take k (filter P q)) \<Longrightarrow> q ! m \<in> set (take k (filter P q))"
proof (induction q arbitrary: k m n)
  case Nil
  then show ?case by simp
next
  case (Cons x xs)
  from Cons.prems obtain n' where n: "n = Suc n'" by (cases n) auto
  show ?case
  proof (cases "P x")
    case True
    from Cons.prems obtain k' where k: "k = Suc k'" by (cases k) auto
    show ?thesis
    proof (cases m)
      case 0
      then show ?thesis using True k by simp
    next
      case (Suc m')
      from Cons.prems n have "xs ! n' \<noteq> x" by auto
      with Cons.prems n k True have "xs ! n' \<in> set (take k' (filter P xs))" by simp
      with Cons.IH [of n' m' k'] Cons.prems n Suc
      have "xs ! m' \<in> set (take k' (filter P xs))" by simp
      then show ?thesis using True k Suc by simp
    qed
  next
    case False
    with Cons.prems obtain m' where m: "m = Suc m'" by (cases m) auto
    from Cons.IH [of n' m' k] Cons.prems n m False show ?thesis by simp
  qed
qed

lemma markItem_marks:
  "i \<in> set (queue (markItem it s')) \<Longrightarrow> item_id i = item_id it \<Longrightarrow> status i = processing"
  by (auto simp add: markItem_def markProcessing_def)

lemma admit_foldl: "admit xs s = foldl (\<lambda>s it. callGateway it (markItem it s)) s xs"
  by (induction xs arbitrary: s) simp_all

text \<open>
  Enqueueing appends at the end of the queue, and every other step keeps the items that
  stay in their order, so the order of the queue is the order of enqueueing.
\<close>

lemma queue_order_step:
  assumes "step s s'"
  shows "(\<exists>j. queue s' = queue s @ [j]) \<or>
         (\<exists>P. map item_id (queue s') = filter P (map item_id (queue s)))"
  using assms
proof (induction rule: step.induct)
  case (enqueue newId s closure now currentPrompt overrideSettings)
  show ?case
  proof (cases "trim currentPrompt = []")
    case True
    then have "map item_id (queue (addToQueue newId now closure currentPrompt overrideSettings s)) =
        filter (\<lambda>x. True) (map item_id (queue s))" by (simp add: addToQueue_def)
    then show ?thesis by blast
  next
    case False
    then show ?thesis by (simp add: addToQueue_def Let_def)
  qed
next
  case (admission s)
  have "map item_id (queue (processNextItems s)) = filter (\<lambda>x. True) (map item_id (queue s))"
    by (simp add: processNextItems_def admit_queue)
  then show ?case by blast
next
  case (settled call s env typeErrorMessage generateContent uuid clock)
  from queue_settle [of env typeErrorMessage generateContent uuid clock call s]
  show ?case
  proof
    assume q: "queue (settle env typeErrorMessage generateContent uuid clock call s) =
      filter (\<lambda>i. item_id i \<noteq> item_id (call_item call)) (queue s)"
    have "map item_id (queue (settle env typeErrorMessage generateContent uuid clock call s)) =
          filter (\<lambda>x. x \<noteq> item_id (call_item call)) (map item_id (queue s))"
      unfolding q by (simp add: filter_map comp_def)
    then show ?thesis by blast
  next
    assume "\<exists>m. queue (settle env typeErrorMessage generateContent uuid clock call s) =
        map (\<lambda>i. if item_id i = item_id (call_item call)
                  then i \<lparr> status := failed, error := Some m \<rparr> else i) (queue s)"
    then obtain m where q: "queue (settle env typeErrorMessage generateContent uuid clock call s) =
        map (\<lambda>i. if item_id i = item_id (call_item call)
                  then i \<lparr> status := failed, error := Some m \<rparr> else i) (queue s)"
      by blast
    have "map item_id (queue (settle env typeErrorMessage generateContent uuid clock call s)) =
          filter (\<lambda>x. True) (map item_id (queue s))"
      unfolding q by simp
    then show ?thesis by blast
  qed
next
  case (cancel s i)
  have "map item_id (queue (cancelQueueItem i s)) = filter (\<lambda>x. x \<noteq> i) (map item_id (queue s))"
    by (simp add: cancelQueueItem_def filter_map comp_def)
  then show ?case by blast
next
  case (retry s item)
  have "map item_id (queue (retryQueueItem item s)) = filter (\<lambda>x. True) (map item_id (queue s))"
    by (simp add: retryQueueItem_def)
  then show ?case by blast
next
  case (replaceImages s imgs)
  have "map item_id (queue (setSourceImages imgs s)) = filter (\<lambda>x. True) (map item_id (queue s))"
    by (simp add: setSourceImages_def)
  then show ?case by blast
next
  case (replaceSettings s st)
  have "map item_id (queue (setSettings st s)) = filter (\<lambda>x. True) (map item_id (queue s))"
    by (simp add: setSettings_def)
  then show ?case by blast
next
  case (writeImages s imgs)
  have "map item_id (queue (writeSourceImages imgs s)) = filter (\<lambda>x. True) (map item_id (queue s))"
    by (simp add: writeSourceImages_def)
  then show ?case by blast
next
  case (writeSettingsInPlace s st)
  have "map item_id (queue (writeSettings st s)) = filter (\<lambda>x. True) (map item_id (queue s))"
    by (simp add: writeSettings_def)
  then show ?case by blast
next
  case (imageMode s b)
  have "map item_id (queue (setIsImageMode b s)) = filter (\<lambda>x. True) (map item_id (queue s))"
    by (simp add: setIsImageMode_def)
  then show ?case by blast
next
  case (promptEdit s p)
  have "map item_id (queue (setPrompt p s)) = filter (\<lambda>x. True) (map item_id (queue s))"
    by (simp add: setPrompt_def)
  then show ?case by blast
qed

lemma admit_trace:
  "trace (admit xs s) =
     trace s @ concat (map (\<lambda>it. [MarkedProcessing (item_id it), GatewayCalled (item_id it)]) xs)"
  by (induction xs arbitrary: s) (simp_all add: callGateway_def markItem_def)

lemma admit_append: "admit (xs @ ys) s = admit ys (admit xs s)"
  by (induction xs arbitrary: s) simp_all

text \<open>Marking items that are not processing raises the count by their number.\<close>

lemma count_marked:
  assumes "distinct q" and "distinct xs" and "set xs \<subseteq> set q"
    and "\<forall>i\<in>set xs. status i \<noteq> processing"
  shows "length (filter (\<lambda>i. status i = processing)
           (map (\<lambda>i. if i \<in> set xs then i \<lparr> status := processing \<rparr> else i) q)) =
         length (filter (\<lambda>i. status i = processing) q) + length xs"
proof -
  have "length (filter (\<lambda>i. status i = processing)
           (map (\<lambda>i. if i \<in> set xs then i \<lparr> status := processing \<rparr> else i) q)) =
        length (filter (\<lambda>i. i \<in> set xs \<or> status i = processing) q)"
    by (induction q) auto
  also have "\<dots> = card ({i. i \<in> set xs \<or> status i = processing} \<inter> set q)"
    using assms(1) by (rule distinct_length_filter)
  also have "{i. i \<in> set xs \<or> status i = processing} \<inter> set q =
      set xs \<union> ({i. status i = processing} \<inter> set q)"
    using assms(3) by auto
  also have "card \<dots> = card (set xs) + card ({i. status i = processing} \<inter> set q)"
    using assms(4) by (intro card_Un_disjoint) auto
  also have "card (set xs) = length xs" using assms(2) by (rule distinct_card)
  also have "card ({i. status i = processing} \<inter> set q) =
      length (filter (\<lambda>i. status i = processing) q)"
    using distinct_length_filter [OF assms(1), of "\<lambda>i. status i = processing"] by simp
  finally show ?thesis by simp
qed

text \<open>With distinct identifiers, one item of the queue has a given identifier of the queue.\<close>

lemma filter_id_single:
  "distinct (map item_id q) \<Longrightarrow> it \<in> set q \<Longrightarrow>
     \<exists>i. filter (\<lambda>i. item_id i = item_id it) q = [i]"
proof (induction q)
  case Nil
  then show ?case by simp
next
  case (Cons a q)
  show ?case
  proof (cases "item_id a = item_id it")
    case True
    with Cons.prems have "\<forall>i\<in>set q. item_id i \<noteq> item_id it" by (metis distinct.simps(2) image_eqI list.simps(9) set_map)
    then have "filter (\<lambda>i. item_id i = item_id it) q = []" by (simp add: filter_empty_conv)
    with True show ?thesis by simp
  next
    case False
    with Cons.prems have "it \<in> set q" by auto
    with Cons.IH Cons.prems False show ?thesis by simp
  qed
qed

lemma filter_id_map:
  "filter (\<lambda>i. item_id i = x) (map (\<lambda>i. if P i then i \<lparr> status := st \<rparr> else i) q) =
     map (\<lambda>i. if P i then i \<lparr> status := st \<rparr> else i) (filter (\<lambda>i. item_id i = x) q)"
  by (induction q) auto

lemma marked_status:
  assumes d: "distinct (map item_id q)" and m: "it \<in> set q"
  shows "map status (filter (\<lambda>i. item_id i = item_id it)
           (markProcessing it (foldl (\<lambda>q it. markProcessing it q) q xs))) = [processing]"
proof -
  from filter_id_single [OF d m] obtain i where i: "filter (\<lambda>i. item_id i = item_id it) q = [i]"
    by blast
  then have "i \<in> set (filter (\<lambda>i. item_id i = item_id it) q)" by simp
  then have e: "item_id i = item_id it" by simp
  have "filter (\<lambda>i. item_id i = item_id it)
          (markProcessing it (foldl (\<lambda>q it. markProcessing it q) q xs)) =
        map (\<lambda>i. if item_id i = item_id it then i \<lparr> status := processing \<rparr> else i)
          (map (\<lambda>i. if item_id i \<in> item_id ` set xs then i \<lparr> status := processing \<rparr> else i)
             (filter (\<lambda>i. item_id i = item_id it) q))"
    unfolding foldl_mark_map by (simp only: markProcessing_def filter_id_map)
  then show ?thesis unfolding i using e by simp
qed

text \<open>
  C2. Let the identifiers in the queue be distinct (they are in every reachable state),
  let \<open>n\<close> be the number of processing items of the queue, and let \<open>admitted\<close> be the first
  \<open>2 - n\<close> pending items in the order of the queue. With two or more items processing the
  admission step does nothing. With fewer than two, \<open>admitted\<close> has at most \<open>2 - n\<close> items,
  at least one when some item is pending, and no pending item is passed over: a pending
  item that stands before an admitted one is admitted too. In the resulting queue exactly
  the admitted items have become processing, which makes \<open>n\<close> plus their number, at most
  two; the calls in flight have grown by one call per admitted item, in the same order.
  The step calls, for each admitted item in turn, first the update that marks it and then
  the gateway, and nothing else; and in the state in which the gateway is called for an
  admitted item, the item of the queue with its identifier is processing.
\<close>

theorem fifo_admission:
  assumes "distinct (map item_id (queue s))"
    and "n = length (filter (\<lambda>i. status i = processing) (queue s))"
    and "admitted = take (2 - n) (filter (\<lambda>i. status i = pending) (queue s))"
  shows "(2 \<le> n \<longrightarrow> processNextItems s = s) \<and>
         (n < 2 \<longrightarrow>
            length admitted \<le> 2 - n \<and>
            (filter (\<lambda>i. status i = pending) (queue s) \<noteq> [] \<longrightarrow> admitted \<noteq> []) \<and>
            (\<forall>m k. m < k \<and> k < length (queue s) \<and> status (queue s ! m) = pending \<and>
                   queue s ! k \<in> set admitted \<longrightarrow> queue s ! m \<in> set admitted) \<and>
            queue (processNextItems s) =
              map (\<lambda>i. if i \<in> set admitted then i \<lparr> status := processing \<rparr> else i) (queue s) \<and>
            length (filter (\<lambda>i. status i = processing) (queue (processNextItems s))) =
              n + length admitted \<and>
            n + length admitted \<le> 2 \<and>
            inFlight (processNextItems s) =
              inFlight s @
              map (\<lambda>it. \<lparr> call_item = it, call_images = arrays s (sourceImages it),
                           call_settings = objects s (settings it) \<rparr>) admitted \<and>
            trace (processNextItems s) =
              trace s @
              concat (map (\<lambda>it. [MarkedProcessing (item_id it), GatewayCalled (item_id it)])
                        admitted) \<and>
            (\<forall>xs it ys. admitted = xs @ it # ys \<longrightarrow>
               processNextItems s = admit ys (callGateway it (markItem it (admit xs s))) \<and>
               map status (filter (\<lambda>i. item_id i = item_id it)
                             (queue (markItem it (admit xs s)))) = [processing]))"
proof (intro conjI impI)
  have n: "n = processingCount (queue s)" using assms(2) by (simp add: processingCount_def)
  have a: "admitted = pendingItems (queue s)"
    using assms(3) n by (simp add: pendingItems_def maxParallel_def)
  have dq: "distinct (queue s)" using assms(1) by (simp add: distinct_map)
  show "processNextItems s = s" if "2 \<le> n"
    using that n by (simp add: processNextItems_def maxParallel_def)
  assume c: "n < 2"
  have pn: "processNextItems s = admit admitted s"
    using c n a by (cases "pendingItems (queue s)") (simp_all add: processNextItems_def maxParallel_def)
  show "length admitted \<le> 2 - n" using assms(3) by simp
  then show "n + length admitted \<le> 2" using c by simp
  show "admitted \<noteq> []" if "filter (\<lambda>i. status i = pending) (queue s) \<noteq> []"
    using that c assms(3) by simp
  show "\<forall>m k. m < k \<and> k < length (queue s) \<and> status (queue s ! m) = pending \<and>
                   queue s ! k \<in> set admitted \<longrightarrow> queue s ! m \<in> set admitted"
    unfolding assms(3)
    using take_filter_earlier [of "queue s" _ _ "\<lambda>i. status i = pending"] dq
    by auto
  show q: "queue (processNextItems s) =
              map (\<lambda>i. if i \<in> set admitted then i \<lparr> status := processing \<rparr> else i) (queue s)"
    unfolding pn admit_queue unfolding a using mark_admitted [OF assms(1)] .
  have sub: "set admitted \<subseteq> set (queue s)" unfolding a by (rule pendingItems_subset)
  have da: "distinct admitted" unfolding assms(3) using dq by simp
  have np: "\<forall>i\<in>set admitted. status i \<noteq> processing"
    unfolding a using pendingItems_pending by fastforce
  show "length (filter (\<lambda>i. status i = processing) (queue (processNextItems s))) =
              n + length admitted"
    unfolding q assms(2) using count_marked [OF dq da sub np] .
  show "inFlight (processNextItems s) =
              inFlight s @
              map (\<lambda>it. \<lparr> call_item = it, call_images = arrays s (sourceImages it),
                           call_settings = objects s (settings it) \<rparr>) admitted"
    unfolding pn admit_inFlight ..
  show "trace (processNextItems s) =
              trace s @
              concat (map (\<lambda>it. [MarkedProcessing (item_id it), GatewayCalled (item_id it)])
                        admitted)"
    unfolding pn admit_trace ..
  show "\<forall>xs it ys. admitted = xs @ it # ys \<longrightarrow>
               processNextItems s = admit ys (callGateway it (markItem it (admit xs s))) \<and>
               map status (filter (\<lambda>i. item_id i = item_id it)
                             (queue (markItem it (admit xs s)))) = [processing]"
  proof (intro allI impI conjI)
    fix xs it ys assume e: "admitted = xs @ it # ys"
    show "processNextItems s = admit ys (callGateway it (markItem it (admit xs s)))"
      unfolding pn e by (simp add: admit_append)
    from e sub have "it \<in> set (queue s)" by auto
    from marked_status [OF assms(1) this, of xs]
    show "map status (filter (\<lambda>i. item_id i = item_id it)
                             (queue (markItem it (admit xs s)))) = [processing]"
      by (simp add: markItem_def admit_queue)
  qed
qed

lemmas run_defs = threeEnqueued_def oneRunning_def mounted_def enqueueNow_def currentClosure_def
    addToQueue_def spreadSettings_def trim_examples Let_def processNextItems_def pendingItems_def
    processingCount_def maxParallel_def markProcessing_def callGateway_def markItem_def

text \<open>
  With one item processing and two pending, the first pending one alone is admitted; with
  two items processing, none.
\<close>

theorem fifo_admission_witness:
  "distinct (map item_id (queue oneRunning)) \<and>
   map (\<lambda>i. (item_id i, status i)) (queue oneRunning) =
     [(''id-1'', processing), (''id-2'', pending), (''id-3'', pending)] \<and>
   map (\<lambda>i. (item_id i, status i)) (queue (processNextItems oneRunning)) =
     [(''id-1'', processing), (''id-2'', processing), (''id-3'', pending)] \<and>
   map (item_id \<circ> call_item) (inFlight (processNextItems oneRunning)) = [''id-1'', ''id-2''] \<and>
   trace (processNextItems oneRunning) =
     [MarkedProcessing ''id-1'', GatewayCalled ''id-1'',
      MarkedProcessing ''id-2'', GatewayCalled ''id-2''] \<and>
   map status (queue (processNextItems threeEnqueued)) = [processing, processing, pending] \<and>
   processNextItems (processNextItems threeEnqueued) = processNextItems threeEnqueued"
proof -
  have d: "distinct (map item_id (queue oneRunning))" by (simp add: run_defs)
  have s0: "map (\<lambda>i. (item_id i, status i)) (queue oneRunning) =
     [(''id-1'', processing), (''id-2'', pending), (''id-3'', pending)]"
    by (simp add: run_defs)
  have n: "length (filter (\<lambda>i. status i = processing) (queue oneRunning)) = 1"
    by (simp add: run_defs)
  note t = fifo_admission [OF d refl refl, unfolded n]
  then have q: "queue (processNextItems oneRunning) =
      map (\<lambda>i. if i \<in> set (take (2 - 1) (filter (\<lambda>i. status i = pending) (queue oneRunning)))
                then i \<lparr> status := processing \<rparr> else i) (queue oneRunning)"
    and f: "inFlight (processNextItems oneRunning) =
      inFlight oneRunning @
      map (\<lambda>it. \<lparr> call_item = it, call_images = arrays oneRunning (sourceImages it),
                   call_settings = objects oneRunning (settings it) \<rparr>)
        (take (2 - 1) (filter (\<lambda>i. status i = pending) (queue oneRunning)))"
    and r: "trace (processNextItems oneRunning) =
      trace oneRunning @
      concat (map (\<lambda>it. [MarkedProcessing (item_id it), GatewayCalled (item_id it)])
        (take (2 - 1) (filter (\<lambda>i. status i = pending) (queue oneRunning))))"
    by simp_all
  have s1: "map (\<lambda>i. (item_id i, status i)) (queue (processNextItems oneRunning)) =
     [(''id-1'', processing), (''id-2'', processing), (''id-3'', pending)]"
    unfolding q by (simp add: run_defs)
  have f1: "map (item_id \<circ> call_item) (inFlight (processNextItems oneRunning)) =
      [''id-1'', ''id-2'']"
    unfolding f by (simp add: run_defs)
  have r1: "trace (processNextItems oneRunning) =
     [MarkedProcessing ''id-1'', GatewayCalled ''id-1'',
      MarkedProcessing ''id-2'', GatewayCalled ''id-2'']"
    unfolding r by (simp add: run_defs)
  have d2: "distinct (map item_id (queue (processNextItems threeEnqueued)))"
    by (simp add: run_defs)
  have s2: "map status (queue (processNextItems threeEnqueued)) = [processing, processing, pending]"
    by (simp add: run_defs)
  then have n2: "length (filter (\<lambda>i. status i = processing) (queue (processNextItems threeEnqueued))) = 2"
    by (simp add: run_defs)
  from fifo_admission [OF d2 refl refl, unfolded n2]
  have i2: "processNextItems (processNextItems threeEnqueued) = processNextItems threeEnqueued"
    by simp
  from d s0 s1 f1 r1 s2 i2 show ?thesis by blast
qed


section \<open>Settling a gateway call\<close>

lemma settle_failure:
  assumes "editImageWithGemini env tem gc (call_images call) (prompt (call_item call))
             (call_settings call) = Inl msg"
  shows "settle env tem gc uuid clock call s =
     s \<lparr> inFlight := remove1 call (inFlight s), globalError := Some msg,
         queue := map (\<lambda>i. if item_id i = item_id (call_item call)
                            then i \<lparr> status := failed, error := Some msg \<rparr> else i) (queue s) \<rparr>"
  using assms gateway_message_nonempty [OF assms]
  by (simp add: settle_def onFailure_def Let_def)

lemma settle_success:
  assumes "editImageWithGemini env tem gc (call_images call) (prompt (call_item call))
             (call_settings call) = Inr (images, t)"
  shows "settle env tem gc uuid clock call s =
     s \<lparr> inFlight := remove1 call (inFlight s),
         generatedImages :=
           (if images \<noteq> [] then newImages uuid clock (call_item call) images @ generatedImages s
            else generatedImages s),
         textResponse := (if t \<noteq> [] then Some t else textResponse s),
         queue := filter (\<lambda>i. item_id i \<noteq> item_id (call_item call)) (queue s) \<rparr>"
  using assms
  by (simp add: settle_def onSuccess_def Let_def)

lemma settle_other_fields [simp]:
  "objects (settle env tem gc uuid clock call s) = objects s"
  "arrays (settle env tem gc uuid clock call s) = arrays s"
  "nextAddr (settle env tem gc uuid clock call s) = nextAddr s"
  "settings_state (settle env tem gc uuid clock call s) = settings_state s"
  "sourceImages_state (settle env tem gc uuid clock call s) = sourceImages_state s"
  "inFlight (settle env tem gc uuid clock call s) = remove1 call (inFlight s)"
  by (simp_all add: settle_def onSuccess_def onFailure_def Let_def split: sum.split prod.split)

text \<open>
  A failing call and the settling of a call of another item can come in either order:
  the queue, the results and the text response come out the same.
\<close>

lemma settle_commute:
  assumes f: "editImageWithGemini env tem gc (call_images call) (prompt (call_item call))
                (call_settings call) = Inl msg"
    and ne: "item_id (call_item other) \<noteq> item_id (call_item call)"
  shows "queue (settle env tem gc uuid clock call (settle env2 tem2 gc2 uuid2 clock2 other s)) =
         queue (settle env2 tem2 gc2 uuid2 clock2 other (settle env tem gc uuid clock call s))"
    and "generatedImages (settle env tem gc uuid clock call (settle env2 tem2 gc2 uuid2 clock2 other s)) =
         generatedImages (settle env2 tem2 gc2 uuid2 clock2 other (settle env tem gc uuid clock call s))"
    and "textResponse (settle env tem gc uuid clock call (settle env2 tem2 gc2 uuid2 clock2 other s)) =
         textResponse (settle env2 tem2 gc2 uuid2 clock2 other (settle env tem gc uuid clock call s))"
proof -
  show "queue (settle env tem gc uuid clock call (settle env2 tem2 gc2 uuid2 clock2 other s)) =
         queue (settle env2 tem2 gc2 uuid2 clock2 other (settle env tem gc uuid clock call s))"
  proof (cases "editImageWithGemini env2 tem2 gc2 (call_images other) (prompt (call_item other))
                  (call_settings other)")
    case (Inl m2)
    show ?thesis unfolding settle_failure [OF f] settle_failure [OF Inl]
      using ne by (auto simp add: comp_def)
  next
    case (Inr r)
    obtain images t where r: "r = (images, t)" by (cases r)
    show ?thesis unfolding settle_failure [OF f] settle_success [OF Inr [unfolded r]]
      by (simp add: filter_map comp_def)
         (rule arg_cong [where f = "\<lambda>P. map _ (filter P (queue s))"], auto)
  qed
  show "generatedImages (settle env tem gc uuid clock call (settle env2 tem2 gc2 uuid2 clock2 other s)) =
         generatedImages (settle env2 tem2 gc2 uuid2 clock2 other (settle env tem gc uuid clock call s))"
  proof (cases "editImageWithGemini env2 tem2 gc2 (call_images other) (prompt (call_item other))
                  (call_settings other)")
    case (Inl m2)
    show ?thesis unfolding settle_failure [OF f] settle_failure [OF Inl] by simp
  next
    case (Inr r)
    obtain images t where r: "r = (images, t)" by (cases r)
    show ?thesis unfolding settle_failure [OF f] settle_success [OF Inr [unfolded r]] by simp
  qed
  show "textResponse (settle env tem gc uuid clock call (settle env2 tem2 gc2 uuid2 clock2 other s)) =
         textResponse (settle env2 tem2 gc2 uuid2 clock2 other (settle env tem gc uuid clock call s))"
  proof (cases "editImageWithGemini env2 tem2 gc2 (call_images other) (prompt (call_item other))
                  (call_settings other)")
    case (Inl m2)
    show ?thesis unfolding settle_failure [OF f] settle_failure [OF Inl] by simp
  next
    case (Inr r)
    obtain images t where r: "r = (images, t)" by (cases r)
    show ?thesis unfolding settle_failure [OF f] settle_success [OF Inr [unfolded r]] by simp
  qed
qed

lemma filter_others_update:
  "filter (\<lambda>i. item_id i \<noteq> x)
     (map (\<lambda>i. if item_id i = x then i \<lparr> status := st, error := e \<rparr> else i) q) =
   filter (\<lambda>i. item_id i \<noteq> x) q"
  by (induction q) auto

lemma inFlight_twoAdmitted: "inFlight (processNextItems threeEnqueued) = [firstCall, secondCall]"
  by (simp add: run_defs firstCall_def secondCall_def)

lemma first_fails:
  "editImageWithGemini exampleBrowser v8Message unreachableService
     (call_images firstCall) (prompt (call_item firstCall)) (call_settings firstCall) =
   Inl ''Network error. Check your internet connection and try again.''"
  by (simp add: editImageWithGemini_def unreachableService_def classifyError_def startsWith_def)

lemma second_succeeds:
  "editImageWithGemini exampleBrowser v8Message answeringService
     (call_images secondCall) (prompt (call_item secondCall)) (call_settings secondCall) =
   Inr ([''data:image/png;base64,QUJD''], ''Here it is.'')"
  by (simp add: editImageWithGemini_def answeringService_def decodeResponse_def)

text \<open>
  The first two jobs complete and the admission effect runs again: the third job, the
  next in the order of enqueueing, is admitted.
\<close>

lemma third_admitted_next:
  "map (\<lambda>i. (item_id i, status i))
     (queue (processNextItems
        (settle exampleBrowser v8Message answeringService (\<lambda>k. ''image'') (\<lambda>k. 400) secondCall
          (settle exampleBrowser v8Message answeringService (\<lambda>k. ''image'') (\<lambda>k. 400) firstCall
            (processNextItems threeEnqueued))))) =
   [(''id-3'', processing)]"
proof -
  have f: "editImageWithGemini exampleBrowser v8Message answeringService
     (call_images firstCall) (prompt (call_item firstCall)) (call_settings firstCall) =
     Inr ([''data:image/png;base64,QUJD''], ''Here it is.'')"
    by (simp add: editImageWithGemini_def answeringService_def decodeResponse_def)
  show ?thesis
    unfolding settle_success [OF second_succeeds] settle_success [OF f]
    by (simp add: run_defs firstCall_def secondCall_def)
qed

text \<open>
  C4. Let the gateway fail for a call in flight with the message \<open>msg\<close>. The message is
  not empty. Settling the call sets the status of the items with the call's identifier to
  \<open>failed\<close> and their error to \<open>msg\<close>, and leaves every other item as it is; no item leaves
  the queue, so the failed job remains, and the items of other identifiers, the pending
  ones among them, are the same as before. Of the calls in flight only the settled one is
  removed; the results and the text response are untouched. Settling the failed call
  before or after the call of another item, whether that one fails or succeeds, gives the
  same queue, the same results and the same text response.
\<close>

theorem failure_isolation:
  assumes "editImageWithGemini env tem gc (call_images call) (prompt (call_item call))
             (call_settings call) = Inl msg"
  shows "msg \<noteq> [] \<and>
     queue (settle env tem gc uuid clock call s) =
       map (\<lambda>i. if item_id i = item_id (call_item call)
                 then i \<lparr> status := failed, error := Some msg \<rparr> else i) (queue s) \<and>
     length (queue (settle env tem gc uuid clock call s)) = length (queue s) \<and>
     filter (\<lambda>i. item_id i \<noteq> item_id (call_item call)) (queue (settle env tem gc uuid clock call s)) =
       filter (\<lambda>i. item_id i \<noteq> item_id (call_item call)) (queue s) \<and>
     inFlight (settle env tem gc uuid clock call s) = remove1 call (inFlight s) \<and>
     generatedImages (settle env tem gc uuid clock call s) = generatedImages s \<and>
     textResponse (settle env tem gc uuid clock call s) = textResponse s \<and>
     (\<forall>other env2 tem2 gc2 uuid2 clock2.
        item_id (call_item other) \<noteq> item_id (call_item call) \<longrightarrow>
        queue (settle env tem gc uuid clock call (settle env2 tem2 gc2 uuid2 clock2 other s)) =
          queue (settle env2 tem2 gc2 uuid2 clock2 other (settle env tem gc uuid clock call s)) \<and>
        generatedImages (settle env tem gc uuid clock call (settle env2 tem2 gc2 uuid2 clock2 other s)) =
          generatedImages (settle env2 tem2 gc2 uuid2 clock2 other (settle env tem gc uuid clock call s)) \<and>
        textResponse (settle env tem gc uuid clock call (settle env2 tem2 gc2 uuid2 clock2 other s)) =
          textResponse (settle env2 tem2 gc2 uuid2 clock2 other (settle env tem gc uuid clock call s)))"
proof (intro conjI allI impI)
  show "msg \<noteq> []" using gateway_message_nonempty [OF assms] .
  show "queue (settle env tem gc uuid clock call s) =
       map (\<lambda>i. if item_id i = item_id (call_item call)
                 then i \<lparr> status := failed, error := Some msg \<rparr> else i) (queue s)"
    unfolding settle_failure [OF assms] by simp
  show "length (queue (settle env tem gc uuid clock call s)) = length (queue s)"
    unfolding settle_failure [OF assms] by simp
  show "filter (\<lambda>i. item_id i \<noteq> item_id (call_item call)) (queue (settle env tem gc uuid clock call s)) =
       filter (\<lambda>i. item_id i \<noteq> item_id (call_item call)) (queue s)"
    unfolding settle_failure [OF assms] by (simp add: filter_others_update)
  show "inFlight (settle env tem gc uuid clock call s) = remove1 call (inFlight s)"
    by simp
  show "generatedImages (settle env tem gc uuid clock call s) = generatedImages s"
    unfolding settle_failure [OF assms] by simp
  show "textResponse (settle env tem gc uuid clock call s) = textResponse s"
    unfolding settle_failure [OF assms] by simp
next
  fix other :: GatewayCall and env2 tem2 gc2 uuid2 clock2
  assume ne: "item_id (call_item other) \<noteq> item_id (call_item call)"
  show "queue (settle env tem gc uuid clock call (settle env2 tem2 gc2 uuid2 clock2 other s)) =
          queue (settle env2 tem2 gc2 uuid2 clock2 other (settle env tem gc uuid clock call s))"
    by (rule settle_commute(1) [OF assms ne])
  show "generatedImages (settle env tem gc uuid clock call (settle env2 tem2 gc2 uuid2 clock2 other s)) =
          generatedImages (settle env2 tem2 gc2 uuid2 clock2 other (settle env tem gc uuid clock call s))"
    by (rule settle_commute(2) [OF assms ne])
  show "textResponse (settle env tem gc uuid clock call (settle env2 tem2 gc2 uuid2 clock2 other s)) =
          textResponse (settle env2 tem2 gc2 uuid2 clock2 other (settle env tem gc uuid clock call s))"
    by (rule settle_commute(3) [OF assms ne])
qed

text \<open>
  Two calls are in flight and the first one fails: its item is failed with the message,
  the second item is still processing and its call is still in flight.
\<close>

theorem failure_isolation_witness:
  "editImageWithGemini exampleBrowser v8Message unreachableService
     (call_images firstCall) (prompt (call_item firstCall)) (call_settings firstCall) =
     Inl ''Network error. Check your internet connection and try again.'' \<and>
   map (\<lambda>i. (item_id i, status i, error i))
     (queue (settle exampleBrowser v8Message unreachableService (\<lambda>k. ''image'') (\<lambda>k. 400)
        firstCall (processNextItems threeEnqueued))) =
     [(''id-1'', failed, Some ''Network error. Check your internet connection and try again.''),
      (''id-2'', processing, None), (''id-3'', pending, None)] \<and>
   inFlight (settle exampleBrowser v8Message unreachableService (\<lambda>k. ''image'') (\<lambda>k. 400)
        firstCall (processNextItems threeEnqueued)) = [secondCall]"
  using failure_isolation [OF first_fails, of "\<lambda>k. ''image''" "\<lambda>k. 400" "processNextItems threeEnqueued"]
    first_fails inFlight_twoAdmitted
  by (simp add: run_defs firstCall_def secondCall_def)

lemma newImages_url: "map url (newImages uuid clock it images) = images"
proof -
  have "map (url \<circ> (\<lambda>(k, u). \<lparr> image_id = uuid k, url = u, image_prompt = prompt it,
                      image_timestamp = clock k \<rparr>)) (enumerate n images) = images" for n
    by (induction images arbitrary: n) simp_all
  then show ?thesis by (simp add: newImages_def)
qed

text \<open>
  C10. Let a call be in flight. Cancelling its item removes the item from the queue and
  leaves the calls in flight as they are, so the call is not aborted. When the gateway
  then succeeds with images and a text, in any state whose queue no longer holds the
  item, settling the call leaves the queue as it is, puts the new images (one per
  returned image, with the returned URLs) in front of the results when there is at least
  one, and sets the text response when the text is not empty.
\<close>

theorem cancelled_call_still_delivers:
  assumes "call \<in> set (inFlight s)"
    and "editImageWithGemini env tem gc (call_images call) (prompt (call_item call))
           (call_settings call) = Inr (images, t)"
  shows "inFlight (cancelQueueItem (item_id (call_item call)) s) = inFlight s \<and>
     call \<in> set (inFlight (cancelQueueItem (item_id (call_item call)) s)) \<and>
     item_id (call_item call) \<notin> item_id ` set (queue (cancelQueueItem (item_id (call_item call)) s)) \<and>
     (\<forall>s2. item_id (call_item call) \<notin> item_id ` set (queue s2) \<longrightarrow>
        queue (settle env tem gc uuid clock call s2) = queue s2 \<and>
        generatedImages (settle env tem gc uuid clock call s2) =
          (if images \<noteq> [] then newImages uuid clock (call_item call) images @ generatedImages s2
           else generatedImages s2) \<and>
        map url (newImages uuid clock (call_item call) images) = images \<and>
        textResponse (settle env tem gc uuid clock call s2) =
          (if t \<noteq> [] then Some t else textResponse s2))"
proof (intro conjI allI impI)
  show "inFlight (cancelQueueItem (item_id (call_item call)) s) = inFlight s"
    by (simp add: cancelQueueItem_def)
  then show "call \<in> set (inFlight (cancelQueueItem (item_id (call_item call)) s))"
    using assms(1) by simp
  show "item_id (call_item call) \<notin> item_id ` set (queue (cancelQueueItem (item_id (call_item call)) s))"
    by (auto simp add: cancelQueueItem_def)
next
  fix s2 :: App
  assume absent: "item_id (call_item call) \<notin> item_id ` set (queue s2)"
  then have "\<forall>i\<in>set (queue s2). item_id i \<noteq> item_id (call_item call)" by (metis image_eqI)
  then have "filter (\<lambda>i. item_id i \<noteq> item_id (call_item call)) (queue s2) = queue s2"
    by (simp add: filter_id_conv)
  then show "queue (settle env tem gc uuid clock call s2) = queue s2"
    unfolding settle_success [OF assms(2)] by simp
  show "generatedImages (settle env tem gc uuid clock call s2) =
          (if images \<noteq> [] then newImages uuid clock (call_item call) images @ generatedImages s2
           else generatedImages s2)"
    unfolding settle_success [OF assms(2)] by simp
  show "map url (newImages uuid clock (call_item call) images) = images"
    by (rule newImages_url)
  show "textResponse (settle env tem gc uuid clock call s2) =
          (if t \<noteq> [] then Some t else textResponse s2)"
    unfolding settle_success [OF assms(2)] by simp
qed

text \<open>
  The second of two processing items is cancelled while its call is in flight, and the
  call then succeeds with one image and a text.
\<close>

theorem cancelled_call_still_delivers_witness:
  "secondCall \<in> set (inFlight (processNextItems threeEnqueued)) \<and>
   editImageWithGemini exampleBrowser v8Message answeringService
     (call_images secondCall) (prompt (call_item secondCall)) (call_settings secondCall) =
     Inr ([''data:image/png;base64,QUJD''], ''Here it is.'') \<and>
   map item_id (queue (cancelQueueItem ''id-2'' (processNextItems threeEnqueued))) = [''id-1'', ''id-3''] \<and>
   map url (generatedImages (settle exampleBrowser v8Message answeringService (\<lambda>k. ''image'') (\<lambda>k. 400)
        secondCall (cancelQueueItem ''id-2'' (processNextItems threeEnqueued)))) =
     [''data:image/png;base64,QUJD''] \<and>
   textResponse (settle exampleBrowser v8Message answeringService (\<lambda>k. ''image'') (\<lambda>k. 400)
        secondCall (cancelQueueItem ''id-2'' (processNextItems threeEnqueued))) = Some ''Here it is.'' \<and>
   queue (settle exampleBrowser v8Message answeringService (\<lambda>k. ''image'') (\<lambda>k. 400)
        secondCall (cancelQueueItem ''id-2'' (processNextItems threeEnqueued))) =
     queue (cancelQueueItem ''id-2'' (processNextItems threeEnqueued))"
proof -
  have m: "secondCall \<in> set (inFlight (processNextItems threeEnqueued))"
    by (simp add: inFlight_twoAdmitted)
  have i: "item_id (call_item secondCall) = ''id-2''" by (simp add: secondCall_def)
  have q: "map item_id (queue (cancelQueueItem ''id-2'' (processNextItems threeEnqueued))) =
      [''id-1'', ''id-3'']"
    by (simp add: cancelQueueItem_def run_defs)
  from cancelled_call_still_delivers [OF m second_succeeds, of "\<lambda>k. ''image''" "\<lambda>k. 400"]
  have "\<forall>s2. ''id-2'' \<notin> item_id ` set (queue s2) \<longrightarrow>
        queue (settle exampleBrowser v8Message answeringService (\<lambda>k. ''image'') (\<lambda>k. 400) secondCall s2) = queue s2 \<and>
        generatedImages (settle exampleBrowser v8Message answeringService (\<lambda>k. ''image'') (\<lambda>k. 400) secondCall s2) =
          newImages (\<lambda>k. ''image'') (\<lambda>k. 400) (call_item secondCall) [''data:image/png;base64,QUJD''] @ generatedImages s2 \<and>
        textResponse (settle exampleBrowser v8Message answeringService (\<lambda>k. ''image'') (\<lambda>k. 400) secondCall s2) =
          Some ''Here it is.''"
    unfolding i by simp
  from this [rule_format, of "cancelQueueItem ''id-2'' (processNextItems threeEnqueued)"] q m second_succeeds
  show ?thesis
    by (simp add: newImages_url cancelQueueItem_def run_defs del: set_map flip: set_map)
qed

section \<open>Snapshots of settings and source images\<close>

lemma processNextItems_fields [simp]:
  "objects (processNextItems s) = objects s"
  "arrays (processNextItems s) = arrays s"
  "nextAddr (processNextItems s) = nextAddr s"
  "settings_state (processNextItems s) = settings_state s"
  "sourceImages_state (processNextItems s) = sourceImages_state s"
  by (simp_all add: processNextItems_def)

text \<open>
  An address that is allocated and is not the live one is never written, and never becomes
  the live one: a step writes at the live addresses or at addresses not yet allocated.
\<close>

lemma step_frozen:
  assumes "step s s'" and "settings_state s < nextAddr s \<and> sourceImages_state s < nextAddr s"
  shows "settings_state s' < nextAddr s' \<and> sourceImages_state s' < nextAddr s' \<and>
     nextAddr s \<le> nextAddr s' \<and>
     (\<forall>a. a < nextAddr s \<and> a \<noteq> settings_state s \<longrightarrow>
          objects s' a = objects s a \<and> a \<noteq> settings_state s') \<and>
     (\<forall>a. a < nextAddr s \<and> a \<noteq> sourceImages_state s \<longrightarrow>
          arrays s' a = arrays s a \<and> a \<noteq> sourceImages_state s')"
  using assms
proof (induction rule: step.induct)
  case (enqueue newId s closure now currentPrompt overrideSettings)
  then show ?case by (simp add: addToQueue_def Let_def)
qed (simp_all add: cancelQueueItem_def retryQueueItem_def setSourceImages_def setSettings_def
      writeSourceImages_def writeSettings_def setIsImageMode_def setPrompt_def)

lemma steps_frozen:
  assumes "step\<^sup>*\<^sup>* s s'" and "settings_state s < nextAddr s \<and> sourceImages_state s < nextAddr s"
  shows "settings_state s' < nextAddr s' \<and> sourceImages_state s' < nextAddr s' \<and>
     nextAddr s \<le> nextAddr s' \<and>
     (\<forall>a. a < nextAddr s \<and> a \<noteq> settings_state s \<longrightarrow>
          objects s' a = objects s a \<and> a \<noteq> settings_state s') \<and>
     (\<forall>a. a < nextAddr s \<and> a \<noteq> sourceImages_state s \<longrightarrow>
          arrays s' a = arrays s a \<and> a \<noteq> sourceImages_state s')"
  using assms
proof (induction rule: rtranclp_induct)
  case base
  then show ?case by simp
next
  case (step y z)
  from step.IH [OF step.prems] have y: "settings_state y < nextAddr y \<and> sourceImages_state y < nextAddr y"
    and mono: "nextAddr s \<le> nextAddr y"
    and o: "\<And>a. a < nextAddr s \<Longrightarrow> a \<noteq> settings_state s \<Longrightarrow> objects y a = objects s a \<and> a \<noteq> settings_state y"
    and a: "\<And>a. a < nextAddr s \<Longrightarrow> a \<noteq> sourceImages_state s \<Longrightarrow> arrays y a = arrays s a \<and> a \<noteq> sourceImages_state y"
    by auto
  note z = step_frozen [OF step.hyps(2) y]
  show ?case
  proof (intro conjI allI impI)
    show "settings_state z < nextAddr z" "sourceImages_state z < nextAddr z" using z by auto
    show "nextAddr s \<le> nextAddr z" using z mono by linarith
  next
    fix a assume h: "a < nextAddr s \<and> a \<noteq> settings_state s"
    with o [of a] mono z show "objects z a = objects s a" by (metis less_le_trans)
    from h o [of a] mono z show "a \<noteq> settings_state z" by (metis less_le_trans)
  next
    fix a assume h: "a < nextAddr s \<and> a \<noteq> sourceImages_state s"
    with a [of a] mono z show "arrays z a = arrays s a" by (metis less_le_trans)
    from h a [of a] mono z show "a \<noteq> sourceImages_state z" by (metis less_le_trans)
  qed
qed

lemma refsOf_update [simp]:
  "refsOf (i \<lparr> status := st \<rparr>) = refsOf i" "refsOf (i \<lparr> status := st, error := e \<rparr>) = refsOf i"
  by (simp_all add: refsOf_def)

lemma refs_map_update:
  "refsOf ` set (map (\<lambda>i. if P i then i \<lparr> status := st, error := e \<rparr> else i) q) = refsOf ` set q"
proof -
  have "map refsOf (map (\<lambda>i. if P i then i \<lparr> status := st, error := e \<rparr> else i) q) = map refsOf q"
    by (induction q) auto
  from arg_cong [OF this, of set] show ?thesis by (simp only: set_map)
qed

lemma refs_markProcessing: "refsOf ` set (markProcessing it q) = refsOf ` set q"
proof -
  have "map refsOf (markProcessing it q) = map refsOf q"
    unfolding markProcessing_def by (induction q) auto
  from arg_cong [OF this, of set] show ?thesis by (simp only: set_map)
qed

lemma refs_foldl_mark: "refsOf ` set (foldl (\<lambda>q it. markProcessing it q) q xs) = refsOf ` set q"
  by (induction xs arbitrary: q) (simp_all add: refs_markProcessing)

lemma refs_owned_step:
  assumes "step s s'" and "r \<in> refsOf ` owned s'"
  shows "r \<in> refsOf ` owned s \<or>
     (r = (nextAddr s, Suc (nextAddr s)) \<and> nextAddr s' = Suc (Suc (nextAddr s)) \<and>
      settings_state s' = settings_state s \<and> sourceImages_state s' = sourceImages_state s)"
  using assms
proof (induction rule: step.induct)
  case (enqueue newId s closure now currentPrompt overrideSettings)
  then show ?case
    by (cases "trim currentPrompt = []") (auto simp add: owned_def addToQueue_def Let_def refsOf_def)
next
  case (admission s)
  have "refsOf ` set (queue (processNextItems s)) = refsOf ` set (queue s)"
    by (simp add: processNextItems_def admit_queue refs_foldl_mark)
  moreover have "call_item ` set (inFlight (processNextItems s)) \<subseteq> call_item ` set (inFlight s) \<union> set (queue s)"
    using pendingItems_subset [of "queue s"]
    by (auto simp add: processNextItems_def admit_inFlight)
  ultimately show ?case using admission unfolding owned_def by (auto simp add: image_Un)
next
  case (settled call s env typeErrorMessage generateContent uuid clock)
  have "refsOf ` set (queue (settle env typeErrorMessage generateContent uuid clock call s)) \<subseteq> refsOf ` set (queue s)"
    using queue_settle [of env typeErrorMessage generateContent uuid clock call s]
    by (auto simp add: refs_map_update)
  moreover have "set (inFlight (settle env typeErrorMessage generateContent uuid clock call s)) \<subseteq> set (inFlight s)"
    by (simp add: set_remove1_subset)
  ultimately show ?case using settled(2) unfolding owned_def by (auto simp add: image_Un)
next
  case (cancel s i)
  then show ?case by (auto simp add: owned_def cancelQueueItem_def)
next
  case (retry s item)
  have "refsOf ` set (queue (retryQueueItem item s)) = refsOf ` set (queue s)"
    using refs_map_update [where P = "\<lambda>i. item_id i = item_id item" and st = pending and e = None and q = "queue s"]
    by (simp add: retryQueueItem_def del: set_map)
  moreover have "inFlight (retryQueueItem item s) = inFlight s" by (simp add: retryQueueItem_def)
  ultimately show ?case using retry unfolding owned_def by (auto simp add: image_Un)
qed (auto simp add: owned_def setSourceImages_def setSettings_def
      writeSourceImages_def writeSettings_def setIsImageMode_def setPrompt_def)

lemma inFlight_step:
  assumes "step s s'" "c \<in> set (inFlight s')"
  shows "c \<in> set (inFlight s) \<or>
    (call_item c \<in> set (queue s) \<and> call_settings c = objects s (settings (call_item c)) \<and>
     call_images c = arrays s (sourceImages (call_item c)))"
  using assms
proof (induction rule: step.induct)
  case (enqueue newId s closure now currentPrompt overrideSettings)
  then show ?case by (simp add: addToQueue_def Let_def split: if_splits)
next
  case (admission s)
  then show ?case using pendingItems_subset [of "queue s"]
    by (auto simp add: processNextItems_def admit_inFlight split: if_splits)
next
  case (settled call s env typeErrorMessage generateContent uuid clock)
  then show ?case by (metis notin_set_remove1 settle_other_fields(6))
qed (simp_all add: cancelQueueItem_def retryQueueItem_def setSourceImages_def setSettings_def
      writeSourceImages_def writeSettings_def setIsImageMode_def setPrompt_def)

lemma heapInv_step:
  assumes st: "step s s'" and inv: "heapInv s"
  shows "heapInv s'"
proof -
  from inv have live: "settings_state s < nextAddr s \<and> sourceImages_state s < nextAddr s"
    by (simp add: heapInv_def)
  note fr = step_frozen [OF st live]
  have old: "fst r < nextAddr s \<and> snd r < nextAddr s \<and>
        fst r \<noteq> settings_state s \<and> snd r \<noteq> sourceImages_state s" if "r \<in> refsOf ` owned s" for r
    using inv that unfolding heapInv_def by blast
  have refs: "fst r < nextAddr s' \<and> snd r < nextAddr s' \<and>
        fst r \<noteq> settings_state s' \<and> snd r \<noteq> sourceImages_state s'"
    if r: "r \<in> refsOf ` owned s'" for r
    using refs_owned_step [OF st r]
  proof
    assume "r \<in> refsOf ` owned s"
    from old [OF this] fr show ?thesis by (metis less_le_trans)
  next
    assume "r = (nextAddr s, Suc (nextAddr s)) \<and> nextAddr s' = Suc (Suc (nextAddr s)) \<and>
      settings_state s' = settings_state s \<and> sourceImages_state s' = sourceImages_state s"
    with live show ?thesis by auto
  qed
  have calls: "call_settings c = objects s' (settings (call_item c)) \<and>
        call_images c = arrays s' (sourceImages (call_item c))" if c: "c \<in> set (inFlight s')" for c
  proof -
    from inFlight_step [OF st c] inv
    have a: "call_settings c = objects s (settings (call_item c)) \<and>
          call_images c = arrays s (sourceImages (call_item c))"
      and o: "refsOf (call_item c) \<in> refsOf ` owned s"
      by (auto simp add: heapInv_def owned_def)
    from old [OF o] fr have "objects s' (settings (call_item c)) = objects s (settings (call_item c))"
      "arrays s' (sourceImages (call_item c)) = arrays s (sourceImages (call_item c))"
      by (simp_all add: refsOf_def)
    with a show ?thesis by simp
  qed
  show ?thesis unfolding heapInv_def using fr refs calls by blast
qed

lemma heapInv_reachable: "reachable s \<Longrightarrow> heapInv s"
proof (induction rule: reachable.induct)
  case (start s)
  then show ?case by (simp add: initial_def heapInv_def owned_def)
next
  case (advance s s')
  then show ?case using heapInv_step by blast
qed

lemma reachable_steps: "step\<^sup>*\<^sup>* s s' \<Longrightarrow> reachable s \<Longrightarrow> reachable s'"
  by (induction rule: rtranclp_induct) (auto intro: reachable.advance)

lemma sameJob_refl [simp]: "sameJob j j"
  by (simp add: sameJob_def)

lemma sameJob_update [simp]:
  "sameJob j (j \<lparr> status := st \<rparr>)" "sameJob j (j \<lparr> status := st, error := e \<rparr>)"
  by (simp_all add: sameJob_def)

lemma sameJob_mem: "j \<in> A \<Longrightarrow> \<exists>k\<in>A. sameJob k j"
  by (rule bexI [of _ j]) simp_all

lemma sameJob_mem_status: "j \<in> A \<Longrightarrow> \<exists>k\<in>A. sameJob k (j \<lparr> status := st \<rparr>)"
  by (rule bexI [of _ j]) simp_all

lemma sameJob_mem_error:
  "j \<in> A \<Longrightarrow> \<exists>k\<in>A. sameJob k (j \<lparr> status := st, error := e \<rparr>)"
  by (rule bexI [of _ j]) simp_all

lemmas sameJob_intros = sameJob_mem sameJob_mem_status sameJob_mem_error

lemma sameJob_trans: "sameJob a b \<Longrightarrow> sameJob b c \<Longrightarrow> sameJob a c"
  by (simp add: sameJob_def)

lemma queue_step:
  assumes "step s s'" and "j' \<in> set (queue s')"
  shows "(\<exists>j\<in>set (queue s). sameJob j j') \<or> settings j' = nextAddr s"
  using assms
proof (induction rule: step.induct)
  case (enqueue newId s closure now currentPrompt overrideSettings)
  then show ?case
    by (cases "trim currentPrompt = []") (auto simp add: addToQueue_def Let_def intro: sameJob_intros)
next
  case (admission s)
  then show ?case
    by (cases "processNextItems s = s") (auto simp add: processNextItems_def admit_queue foldl_mark_map intro: sameJob_intros split: if_splits)
next
  case (settled call s env typeErrorMessage generateContent uuid clock)
  then show ?case
    using queue_settle [of env typeErrorMessage generateContent uuid clock call s]
    by (auto intro: sameJob_intros split: if_splits)
next
  case (cancel s i)
  then show ?case by (auto simp add: cancelQueueItem_def intro: sameJob_intros)
next
  case (retry s item)
  then show ?case by (auto simp add: retryQueueItem_def intro: sameJob_intros split: if_splits)
qed (auto simp add: setSourceImages_def setSettings_def
      writeSourceImages_def writeSettings_def setIsImageMode_def setPrompt_def intro: sameJob_intros)

lemma queue_steps:
  assumes "step\<^sup>*\<^sup>* s s'" and "settings_state s < nextAddr s \<and> sourceImages_state s < nextAddr s"
  shows "\<forall>j'\<in>set (queue s'). (\<exists>j\<in>set (queue s). sameJob j j') \<or> nextAddr s \<le> settings j'"
  using assms
proof (induction rule: rtranclp_induct)
  case base
  then show ?case by (auto intro: sameJob_intros)
next
  case (step y z)
  show ?case
  proof
    fix j' assume "j' \<in> set (queue z)"
    from queue_step [OF step.hyps(2) this]
    show "(\<exists>j\<in>set (queue s). sameJob j j') \<or> nextAddr s \<le> settings j'"
    proof
      assume "\<exists>j\<in>set (queue y). sameJob j j'"
      then obtain k where k: "k \<in> set (queue y)" "sameJob k j'" by blast
      with step.IH [OF step.prems] have "(\<exists>j\<in>set (queue s). sameJob j k) \<or> nextAddr s \<le> settings k"
        by blast
      with k(2) show ?thesis using sameJob_trans by (auto simp add: sameJob_def)
    next
      assume "settings j' = nextAddr y"
      with steps_frozen [OF step.hyps(1) step.prems] show ?thesis by simp
    qed
  qed
qed

lemma addToQueue_snapshot:
  assumes "trim p \<noteq> []" and inv: "heapInv s"
    and c: "captured_settings c < nextAddr s" "captured_sourceImages c < nextAddr s"
  shows "\<exists>j. queue (addToQueue newId now c p ov s) = queue s @ [j] \<and>
      item_id j = newId \<and> prompt j = p \<and> status j = pending \<and>
      (ov = None \<longrightarrow>
         objects (addToQueue newId now c p ov s) (settings j) = objects s (captured_settings c)) \<and>
      (\<forall>x. ov = Some x \<longrightarrow>
         objects (addToQueue newId now c p ov s) (settings j) =
           \<lparr> aspectRatio = (case aspectRatio_o x of Some v \<Rightarrow> v
                            | None \<Rightarrow> aspectRatio (objects s (captured_settings c))),
             resolution = (case resolution_o x of Some v \<Rightarrow> v
                           | None \<Rightarrow> resolution (objects s (captured_settings c))),
             modelType = (case modelType_o x of Some v \<Rightarrow> v
                          | None \<Rightarrow> modelType (objects s (captured_settings c))),
             style = (case style_o x of Some v \<Rightarrow> v
                      | None \<Rightarrow> style (objects s (captured_settings c))),
             cameraAngle = (case cameraAngle_o x of Some v \<Rightarrow> v
                            | None \<Rightarrow> cameraAngle (objects s (captured_settings c))) \<rparr>) \<and>
      arrays (addToQueue newId now c p ov s) (sourceImages j) =
        (if captured_isImageMode c then arrays s (captured_sourceImages c) else []) \<and>
      settings j \<noteq> captured_settings c \<and> sourceImages j \<noteq> captured_sourceImages c \<and>
      settings j \<noteq> settings_state (addToQueue newId now c p ov s) \<and>
      sourceImages j \<noteq> sourceImages_state (addToQueue newId now c p ov s) \<and>
      (\<forall>k\<in>set (queue s) \<union> call_item ` set (inFlight s).
         settings k \<noteq> settings j \<and> sourceImages k \<noteq> sourceImages j)"
proof -
  from inv have live: "settings_state s < nextAddr s" "sourceImages_state s < nextAddr s"
    and old: "\<And>k. k \<in> owned s \<Longrightarrow> settings k < nextAddr s \<and> sourceImages k < nextAddr s"
    unfolding heapInv_def refsOf_def by auto
  show ?thesis
    using assms(1) live old c
    by (fastforce simp add: addToQueue_def Let_def owned_def spreadSettings_def)
qed


lemmas heap_run_defs = twoImages_def enqueuedAB_def dispatchedAB_def mounted_def
  setSourceImages_def setIsImageMode_def setSettings_def enqueueNow_def currentClosure_def
  addToQueue_def trim_examples Let_def
  spreadSettings_def processNextItems_def pendingItems_def processingCount_def maxParallel_def
  markProcessing_def callGateway_def markItem_def

lemma enqueuedAB_reachable: "reachable enqueuedAB"
  unfolding enqueuedAB_def twoImages_def enqueueNow_def
  apply (rule reachable.advance [OF _ step.enqueue])
      apply (rule reachable.advance [OF _ step.replaceImages])
      apply (rule reachable.advance [OF _ step.imageMode])
      apply (rule reachable.advance [OF _ step.replaceSettings])
      apply (rule reachable.start)
      apply (simp_all add: initial_def mounted_def setSourceImages_def setIsImageMode_def
        setSettings_def currentClosure_def)
  done

lemma dispatchedAB_steps: "step\<^sup>*\<^sup>* enqueuedAB dispatchedAB"
proof -
  have "step enqueuedAB (setSourceImages [''A'', ''B'', ''C''] enqueuedAB)"
    by (rule step.replaceImages)
  moreover have "step (setSourceImages [''A'', ''B'', ''C''] enqueuedAB) dispatchedAB"
    unfolding dispatchedAB_def by (rule step.admission)
  ultimately show ?thesis by (meson r_into_rtranclp rtranclp.rtrancl_into_rtrancl)
qed

lemma enqueuedAB_live:
  "isImageMode enqueuedAB"
  "arrays enqueuedAB (sourceImages_state enqueuedAB) = [''A'', ''B'']"
  "objects enqueuedAB (settings_state enqueuedAB) = cinematicLowAngle"
  "settings_state enqueuedAB < nextAddr enqueuedAB"
  "sourceImages_state enqueuedAB < nextAddr enqueuedAB"
  by (simp_all add: heap_run_defs)


text \<open>
  The state after \<^verbatim>\<open>handleViewerRemoveBg\<close> is reached by steps: the generation of the
  image, the three updates, and the enqueueing from the closure of the render before them.
\<close>

lemma first_succeeds:
  "editImageWithGemini exampleBrowser v8Message answeringService
     (call_images firstCall) (prompt (call_item firstCall)) (call_settings firstCall) =
   Inr ([''data:image/png;base64,QUJD''], ''Here it is.'')"
  by (simp add: editImageWithGemini_def answeringService_def decodeResponse_def)

lemma firstGenerated_fields:
  "queue firstGenerated = []"
  "inFlight firstGenerated = []"
  "map url (generatedImages firstGenerated) = [''data:image/png;base64,QUJD'']"
  "\<not> isImageMode firstGenerated"
  "arrays firstGenerated (sourceImages_state firstGenerated) = []"
  "objects firstGenerated (settings_state firstGenerated) = defaultSettings"
  "settings_state firstGenerated < nextAddr firstGenerated"
  "sourceImages_state firstGenerated < nextAddr firstGenerated"
  unfolding firstGenerated_def settle_success [OF first_succeeds]
  by (simp_all add: run_defs firstCall_def newImages_def)

lemma firstGenerated_reachable: "reachable firstGenerated"
  unfolding firstGenerated_def enqueueNow_def
  apply (rule reachable.advance [OF _ step.settled])
   apply (rule reachable.advance [OF _ step.admission])
   apply (rule reachable.advance [OF _ step.enqueue])
       apply (rule reachable.start)
       apply (simp_all add: initial_def run_defs firstCall_def)
  done

lemma viewerRemoveBg_reachable: "reachable viewerRemoveBg"
  unfolding viewerRemoveBg_def handleViewerRemoveBg_def Let_def
  apply (rule reachable.advance [OF _ step.enqueue])
      apply (rule reachable.advance [OF _ step.replaceSettings])
      apply (rule reachable.advance [OF _ step.imageMode])
      apply (rule reachable.advance [OF _ step.replaceImages])
      apply (rule firstGenerated_reachable)
     apply (simp_all add: firstGenerated_fields setSourceImages_def setIsImageMode_def
       setSettings_def currentClosure_def less_SucI)
  done


end
